theory Spec2Isabelle
  imports Main
begin

section \<open>Data model\<close>

text \<open>
  The repository holds two variants of one inventory service: \<^verbatim>\<open>src/unnamed/part_000\<close>
  keeps the items in a module-level array (\<^verbatim>\<open>inventory\<close>, \<^verbatim>\<open>nextId\<close>), \<^verbatim>\<open>src/main.js\<close>
  keeps them in the PostgreSQL table \<^verbatim>\<open>items\<close>. Both store uploaded photos in the
  directory \<^verbatim>\<open>CACHE_DIR\<close>. An item is the object
  \<^verbatim>\<open>{ id, name, description, photo }\<close>; the photo is \<^verbatim>\<open>null\<close> or a path.
  Form fields and JSON body fields are modelled for text values, an omitted field
  (\<^verbatim>\<open>undefined\<close>) or \<^verbatim>\<open>null\<close> being \<open>None\<close>. A request whose body no parser has
  filled has no \<^verbatim>\<open>req.body\<close> at all (it is \<^verbatim>\<open>undefined\<close>, as version 5 of the
  framework leaves it when neither the JSON, the form nor the multipart parser applies;
  the sources do not fix the version, and version 4 would pass an empty object): the
  body of a handler is an option, \<open>None\<close> for such a request.
\<close>

record item =
  item_id :: int
  name :: string
  description :: string
  photo :: "string option"

datatype json = JNull | JStr string | JNum int

type_synonym json_object = "(string \<times> json) list"

datatype body =
    Text string
  | Json json_object
  | JsonArray "json_object list"
  | JsonUndefined
  | SendFile string

datatype response = Response (status: nat) (body: body)

text \<open>
  An exception that no \<^verbatim>\<open>try\<close> of a handler catches (also one thrown in an
  \<^verbatim>\<open>async\<close> handler before its \<^verbatim>\<open>try\<close>) leaves the handler where it is thrown and
  reaches the framework's error handler, which answers 500 with an error page; the
  page is represented by the text of the status.
\<close>

definition uncaught :: response where
  "uncaught = Response 500 (Text ''Internal Server Error'')"

text \<open>
  \<^verbatim>\<open>parseInt(req.params.id, 10)\<close> is an integer or, for text that does not start with
  a number, \<^verbatim>\<open>NaN\<close>.
\<close>

datatype js_number = Num int | NaN

text \<open>The file system, as far as the handlers see it: the set of paths that exist.\<close>

type_synonym disk = "string set"

datatype fs_error = ENOENT

definition existsSync :: "string \<Rightarrow> disk \<Rightarrow> bool" where
  "existsSync p d = (p \<in> d)"

text \<open>
  \<^verbatim>\<open>fs.unlinkSync\<close> throws when the path does not exist. Other failures of the file
  system (permissions, a directory at the path) are outside the model.
\<close>

definition unlinkSync :: "string \<Rightarrow> disk \<Rightarrow> fs_error + disk" where
  "unlinkSync p d = (if p \<in> d then Inr (d - {p}) else Inl ENOENT)"

text \<open>
  The four handlers that delete a photo file all do it with the same statement,
  \<^verbatim>\<open>if (x.photo && fs.existsSync(x.photo)) { fs.unlinkSync(x.photo); }\<close>.
\<close>

definition remove_photo_file :: "string option \<Rightarrow> disk \<Rightarrow> fs_error + disk" where
  "remove_photo_file stored d =
     (case stored of
        None \<Rightarrow> Inr d
      | Some p \<Rightarrow> if p \<noteq> [] \<and> existsSync p d then unlinkSync p d else Inr d)"

subsection \<open>JavaScript values\<close>

text \<open>A text value is truthy when it is present and not the empty string.\<close>

definition truthy :: "string option \<Rightarrow> bool" where
  "truthy v = (case v of None \<Rightarrow> False | Some s \<Rightarrow> s \<noteq> [])"

text \<open>\<^verbatim>\<open>description || ''\<close>\<close>

definition or_empty :: "string option \<Rightarrow> string" where
  "or_empty v = (case v of None \<Rightarrow> [] | Some s \<Rightarrow> (if s \<noteq> [] then s else []))"

text \<open>The decimal rendering of an integer inside a template string.\<close>

fun digits :: "nat \<Rightarrow> string" where
  "digits n =
     (if n < 10 then [''0123456789'' ! n]
      else digits (n div 10) @ [''0123456789'' ! (n mod 10)])"

declare digits.simps [simp del]

definition num_string :: "int \<Rightarrow> string" where
  "num_string i = (if i < 0 then CHR ''-'' # digits (nat (- i)) else digits (nat i))"

text \<open>\<^verbatim>\<open>`/inventory/${item.id}/photo`\<close>\<close>

definition photo_link :: "int \<Rightarrow> string" where
  "photo_link i = ''/inventory/'' @ num_string i @ ''/photo''"

text \<open>The JSON serialisation of an item, and the object spreads built on it.\<close>

definition json_of_photo :: "string option \<Rightarrow> json" where
  "json_of_photo p = (case p of None \<Rightarrow> JNull | Some s \<Rightarrow> JStr s)"

definition item_json :: "item \<Rightarrow> json_object" where
  "item_json it =
     [(''id'', JNum (item_id it)), (''name'', JStr (name it)),
      (''description'', JStr (description it)), (''photo'', json_of_photo (photo it))]"

text \<open>\<^verbatim>\<open>{ ...item, photo_url: item.photo ? `/inventory/${item.id}/photo` : null }\<close>\<close>

definition with_photo_url :: "item \<Rightarrow> json_object" where
  "with_photo_url it =
     item_json it @
     [(''photo_url'', if truthy (photo it) then JStr (photo_link (item_id it)) else JNull)]"

text \<open>
  The search handlers copy the item and, when \<^verbatim>\<open>includePhoto === 'on'\<close> and the copy
  has a photo, append a note to the copy's description.
\<close>

definition photo_note :: "int \<Rightarrow> string" where
  "photo_note i = '' [Photo Link: '' @ photo_link i @ '']''"

definition search_output :: "string option \<Rightarrow> item \<Rightarrow> item" where
  "search_output includePhoto it =
     (if includePhoto = Some ''on'' \<and> truthy (photo it)
      then it\<lparr>description := description it @ photo_note (item_id it)\<rparr>
      else it)"

subsection \<open>The upload middleware\<close>

text \<open>
  \<^verbatim>\<open>multer({ dest: CACHE_DIR })\<close> runs before the handler of the two routes that declare
  \<^verbatim>\<open>upload.single('photo')\<close>: when the request carries a photo it writes the file into
  \<^verbatim>\<open>CACHE_DIR\<close> under a name it generates and sets \<^verbatim>\<open>req.file.path\<close> to that path;
  otherwise \<^verbatim>\<open>req.file\<close> is undefined. The generated name is the request's part of the
  model. \<^verbatim>\<open>CACHE_DIR\<close> is resolved at start-up, so \<^verbatim>\<open>path.resolve(req.file.path)\<close> is
  the path itself.
\<close>

definition upload_path :: "string \<Rightarrow> string \<Rightarrow> string" where
  "upload_path CACHE_DIR fname = CACHE_DIR @ ''/'' @ fname"

definition upload_single :: "string \<Rightarrow> string option \<Rightarrow> disk \<Rightarrow> string option \<times> disk" where
  "upload_single CACHE_DIR upl d =
     (case upl of
        None \<Rightarrow> (None, d)
      | Some fname \<Rightarrow> (Some (upload_path CACHE_DIR fname), insert (upload_path CACHE_DIR fname) d))"

section \<open>The in-memory variant\<close>

record mem =
  inventory :: "item list"
  nextId :: int

definition mem_init :: mem where
  "mem_init = \<lparr>inventory = [], nextId = 1\<rparr>"

text \<open>
  \<^verbatim>\<open>inventory.find(i => i.id === itemId)\<close> returns the first matching object itself, so
  an assignment to one of its fields changes the array element at that position. Where
  the handler assigns, the model finds the position; \<open>None\<close> is \<^verbatim>\<open>undefined\<close> (or the
  \<^verbatim>\<open>-1\<close> of \<^verbatim>\<open>findIndex\<close>).
\<close>

fun findIndex :: "('a \<Rightarrow> bool) \<Rightarrow> 'a list \<Rightarrow> nat option" where
  "findIndex P [] = None"
| "findIndex P (x # xs) = (if P x then Some 0 else map_option Suc (findIndex P xs))"

text \<open>\<^verbatim>\<open>i => i.id === itemId\<close>: nothing is equal to \<^verbatim>\<open>NaN\<close>.\<close>

definition has_id :: "js_number \<Rightarrow> item \<Rightarrow> bool" where
  "has_id itemId i = (Num (item_id i) = itemId)"

text \<open>
  The register handler starts with
  \<^verbatim>\<open>const { inventory_name, description } = req.body\<close>, which throws when there is no
  body.
\<close>

definition mem_post_register ::
  "(string option \<times> string option) option \<Rightarrow> string option \<Rightarrow> mem \<Rightarrow> response \<times> mem" where
  "mem_post_register req_body file s =
     (case req_body of
        None \<Rightarrow> (uncaught, s)
      | Some (inventory_name, descr) \<Rightarrow>
          (case inventory_name of
             None \<Rightarrow> (Response 400 (Text ''Bad Request: inventory_name is required.''), s)
           | Some n \<Rightarrow>
               if n = []
               then (Response 400 (Text ''Bad Request: inventory_name is required.''), s)
               else
                 let newItem = \<lparr>item_id = nextId s, name = n, description = or_empty descr,
                                photo = file\<rparr>
                 in (Response 201 (Json (item_json newItem)),
                     s\<lparr>inventory := inventory s @ [newItem], nextId := nextId s + 1\<rparr>)))"

definition mem_get_inventory :: "mem \<Rightarrow> response" where
  "mem_get_inventory s = Response 200 (JsonArray (map with_photo_url (inventory s)))"

definition mem_get_item :: "js_number \<Rightarrow> mem \<Rightarrow> response" where
  "mem_get_item itemId s =
     (case find (has_id itemId) (inventory s) of
        None \<Rightarrow> Response 404 (Text ''Not Found'')
      | Some it \<Rightarrow> Response 200 (Json (with_photo_url it)))"

text \<open>\<^verbatim>\<open>if (req.body.name) item.name = req.body.name\<close>, and the same for the description.\<close>

definition assign_fields :: "string option \<Rightarrow> string option \<Rightarrow> item \<Rightarrow> item" where
  "assign_fields new_name new_descr it =
     (let it1 = (case new_name of
                   None \<Rightarrow> it
                 | Some n \<Rightarrow> if n \<noteq> [] then it\<lparr>name := n\<rparr> else it)
      in (case new_descr of
            None \<Rightarrow> it1
          | Some t \<Rightarrow> if t \<noteq> [] then it1\<lparr>description := t\<rparr> else it1))"

text \<open>
  The update handler of this variant reads \<^verbatim>\<open>req.body.name\<close> only after it has found
  the item; without a body that read throws.
\<close>

definition mem_put_item ::
  "js_number \<Rightarrow> (string option \<times> string option) option \<Rightarrow> mem \<Rightarrow> response \<times> mem" where
  "mem_put_item itemId req_body s =
     (case findIndex (has_id itemId) (inventory s) of
        None \<Rightarrow> (Response 404 (Text ''Not Found''), s)
      | Some k \<Rightarrow>
          (case req_body of
             None \<Rightarrow> (uncaught, s)
           | Some (new_name, new_descr) \<Rightarrow>
               let it = assign_fields new_name new_descr (inventory s ! k)
               in (Response 200 (Json (item_json it)),
                   s\<lparr>inventory := (inventory s)[k := it]\<rparr>)))"

definition mem_get_photo :: "js_number \<Rightarrow> mem \<Rightarrow> disk \<Rightarrow> response" where
  "mem_get_photo itemId s d =
     (case find (has_id itemId) (inventory s) of
        None \<Rightarrow> Response 404 (Text ''Not Found'')
      | Some it \<Rightarrow>
          (case photo it of
             None \<Rightarrow> Response 404 (Text ''Not Found'')
           | Some p \<Rightarrow>
               if p = [] \<or> \<not> existsSync p d then Response 404 (Text ''Not Found'')
               else Response 200 (SendFile p)))"

text \<open>
  The handlers of this variant have no \<^verbatim>\<open>try\<close>: an exception of \<^verbatim>\<open>unlinkSync\<close> would
  be uncaught.
\<close>

definition mem_put_photo ::
  "js_number \<Rightarrow> string option \<Rightarrow> mem \<Rightarrow> disk \<Rightarrow> response \<times> mem \<times> disk" where
  "mem_put_photo itemId file s d =
     (case findIndex (has_id itemId) (inventory s) of
        None \<Rightarrow> (Response 404 (Text ''Not Found''), s, d)
      | Some k \<Rightarrow>
          (case file of
             None \<Rightarrow> (Response 400 (Text ''Bad Request: No photo file provided.''), s, d)
           | Some new_path \<Rightarrow>
               let it = inventory s ! k;
                   removed = remove_photo_file (photo it) d
               in (case removed of
                     Inl e \<Rightarrow> (uncaught, s, d)
                   | Inr d' \<Rightarrow>
                       (Response 200 (Text ''Photo updated successfully.''),
                        s\<lparr>inventory := (inventory s)[k := it\<lparr>photo := Some new_path\<rparr>]\<rparr>,
                        d'))))"

text \<open>\<^verbatim>\<open>const [deletedItem] = inventory.splice(itemIndex, 1)\<close>\<close>

definition splice1 :: "nat \<Rightarrow> 'a list \<Rightarrow> 'a list" where
  "splice1 k xs = take k xs @ drop (Suc k) xs"

definition mem_delete_item :: "js_number \<Rightarrow> mem \<Rightarrow> disk \<Rightarrow> response \<times> mem \<times> disk" where
  "mem_delete_item itemId s d =
     (case findIndex (has_id itemId) (inventory s) of
        None \<Rightarrow> (Response 404 (Text ''Not Found''), s, d)
      | Some itemIndex \<Rightarrow>
          let deletedItem = inventory s ! itemIndex;
              s' = s\<lparr>inventory := splice1 itemIndex (inventory s)\<rparr>;
              removed = remove_photo_file (photo deletedItem) d
          in (case removed of
                Inl e \<Rightarrow> (uncaught, s', d)
              | Inr d' \<Rightarrow> (Response 200 (Text ''Item deleted successfully.''), s', d')))"

text \<open>
  The search handler starts with \<^verbatim>\<open>const { id, includePhoto } = req.body\<close> and parses
  the id with \<^verbatim>\<open>parseInt(id, 10)\<close>: the id of the body is that number.
\<close>

definition mem_post_search :: "(js_number \<times> string option) option \<Rightarrow> mem \<Rightarrow> response" where
  "mem_post_search req_body s =
     (case req_body of
        None \<Rightarrow> uncaught
      | Some (itemId, includePhoto) \<Rightarrow>
          (case find (has_id itemId) (inventory s) of
             None \<Rightarrow> Response 404 (Text ''Not Found'')
           | Some it \<Rightarrow> Response 200 (Json (item_json (search_output includePhoto it)))))"

section \<open>The SQL-backed variant\<close>

text \<open>
  Modelled from the spec: the declaration of the table \<^verbatim>\<open>items\<close> is not part of the
  sources. The table has the columns \<^verbatim>\<open>id\<close>, \<^verbatim>\<open>name\<close>, \<^verbatim>\<open>description\<close>
  and \<^verbatim>\<open>photo\<close> that the queries use, and the \<^verbatim>\<open>id\<close> of a new row is "monotonically
  assigned on creation (sequence or auto-increment)": the next value of a sequence
  that starts at 1.
\<close>

record db =
  rows :: "item list"
  seq :: int

definition db_init :: db where
  "db_init = \<lparr>rows = [], seq = 1\<rparr>"

datatype db_error = DbError

text \<open>
  \<^verbatim>\<open>await dbClient.query(...)\<close> either yields the result of the statement or rejects,
  and then the statement has changed nothing. Whether the \<open>k\<close>-th query of a request
  goes through is the environment's choice, the argument \<open>ok\<close> of the handlers.
\<close>

definition query :: "bool \<Rightarrow> 'a \<Rightarrow> db_error + 'a" where
  "query succeeds r = (if succeeds then Inr r else Inl DbError)"

definition all_ok :: "nat \<Rightarrow> bool" where
  "all_ok k = True"

text \<open>\<^verbatim>\<open>INSERT INTO items (name, description, photo) VALUES ($1, $2, $3) RETURNING *\<close>\<close>

definition insert_item :: "string \<Rightarrow> string \<Rightarrow> string option \<Rightarrow> db \<Rightarrow> item list \<times> db" where
  "insert_item n t p tb =
     (let r = \<lparr>item_id = seq tb, name = n, description = t, photo = p\<rparr>
      in ([r], tb\<lparr>rows := rows tb @ [r], seq := seq tb + 1\<rparr>))"

text \<open>\<^verbatim>\<open>SELECT * FROM items WHERE id = $1\<close> (and \<^verbatim>\<open>SELECT photo ...\<close>)\<close>

definition select_by_id :: "js_number \<Rightarrow> db \<Rightarrow> item list" where
  "select_by_id itemId tb = filter (has_id itemId) (rows tb)"

text \<open>\<^verbatim>\<open>SELECT * FROM items ORDER BY id ASC\<close>\<close>

definition select_all :: "db \<Rightarrow> item list" where
  "select_all tb = sort_key item_id (rows tb)"

text \<open>
  \<^verbatim>\<open>UPDATE items SET name = COALESCE($1, name), description = COALESCE($2, description)
  WHERE id = $3 RETURNING *\<close>; the driver sends \<^verbatim>\<open>undefined\<close> as \<^verbatim>\<open>NULL\<close>.
\<close>

definition coalesce :: "'a option \<Rightarrow> 'a \<Rightarrow> 'a" where
  "coalesce v old = (case v of None \<Rightarrow> old | Some x \<Rightarrow> x)"

definition set_fields :: "string option \<Rightarrow> string option \<Rightarrow> item \<Rightarrow> item" where
  "set_fields new_name new_descr r =
     r\<lparr>name := coalesce new_name (name r), description := coalesce new_descr (description r)\<rparr>"

definition update_fields ::
  "js_number \<Rightarrow> string option \<Rightarrow> string option \<Rightarrow> db \<Rightarrow> item list \<times> db" where
  "update_fields itemId new_name new_descr tb =
     (let rs = map (\<lambda>r. if has_id itemId r then set_fields new_name new_descr r else r) (rows tb)
      in (filter (has_id itemId) rs, tb\<lparr>rows := rs\<rparr>))"

text \<open>\<^verbatim>\<open>UPDATE items SET photo = $1 WHERE id = $2\<close>\<close>

definition update_photo :: "js_number \<Rightarrow> string \<Rightarrow> db \<Rightarrow> db" where
  "update_photo itemId p tb =
     tb\<lparr>rows := map (\<lambda>r. if has_id itemId r then r\<lparr>photo := Some p\<rparr> else r) (rows tb)\<rparr>"

text \<open>\<^verbatim>\<open>DELETE FROM items WHERE id = $1\<close>\<close>

definition delete_by_id :: "js_number \<Rightarrow> db \<Rightarrow> db" where
  "delete_by_id itemId tb = tb\<lparr>rows := filter (\<lambda>r. \<not> has_id itemId r) (rows tb)\<rparr>"

text \<open>\<^verbatim>\<open>res.json(result.rows[0])\<close>\<close>

definition json_first :: "item list \<Rightarrow> body" where
  "json_first rs = (case rs of [] \<Rightarrow> JsonUndefined | r # _ \<Rightarrow> Json (item_json r))"

definition database_error :: response where
  "database_error = Response 500 (Text ''Database Error'')"

text \<open>
  The handlers of this variant are \<^verbatim>\<open>async\<close> functions; the destructuring of
  \<^verbatim>\<open>req.body\<close> at their start stands before the \<^verbatim>\<open>try\<close>, so without a body it is
  uncaught.
\<close>

definition sql_post_register ::
  "(nat \<Rightarrow> bool) \<Rightarrow> (string option \<times> string option) option \<Rightarrow> string option \<Rightarrow> db \<Rightarrow>
   response \<times> db"
  where
  "sql_post_register ok req_body file tb =
     (case req_body of
        None \<Rightarrow> (uncaught, tb)
      | Some (inventory_name, descr) \<Rightarrow>
          (case inventory_name of
             None \<Rightarrow> (Response 400 (Text ''Bad Request: inventory_name is required.''), tb)
           | Some n \<Rightarrow>
               if n = []
               then (Response 400 (Text ''Bad Request: inventory_name is required.''), tb)
               else
                 (case query (ok 0) (insert_item n (or_empty descr) file tb) of
                    Inl e \<Rightarrow> (database_error, tb)
                  | Inr (result, tb') \<Rightarrow> (Response 201 (json_first result), tb'))))"

definition sql_get_inventory :: "(nat \<Rightarrow> bool) \<Rightarrow> db \<Rightarrow> response" where
  "sql_get_inventory ok tb =
     (case query (ok 0) (select_all tb) of
        Inl e \<Rightarrow> database_error
      | Inr result \<Rightarrow> Response 200 (JsonArray (map with_photo_url result)))"

definition sql_get_item :: "(nat \<Rightarrow> bool) \<Rightarrow> js_number \<Rightarrow> db \<Rightarrow> response" where
  "sql_get_item ok itemId tb =
     (case query (ok 0) (select_by_id itemId tb) of
        Inl e \<Rightarrow> database_error
      | Inr [] \<Rightarrow> Response 404 (Text ''Not Found'')
      | Inr (it # _) \<Rightarrow> Response 200 (Json (with_photo_url it)))"

definition sql_put_item ::
  "(nat \<Rightarrow> bool) \<Rightarrow> js_number \<Rightarrow> (string option \<times> string option) option \<Rightarrow> db \<Rightarrow>
   response \<times> db" where
  "sql_put_item ok itemId req_body tb =
     (case req_body of
        None \<Rightarrow> (uncaught, tb)
      | Some (new_name, new_descr) \<Rightarrow>
          (case query (ok 0) (select_by_id itemId tb) of
             Inl e \<Rightarrow> (database_error, tb)
           | Inr [] \<Rightarrow> (Response 404 (Text ''Not Found''), tb)
           | Inr (_ # _) \<Rightarrow>
               (case query (ok 1) (update_fields itemId new_name new_descr tb) of
                  Inl e \<Rightarrow> (database_error, tb)
                | Inr (updateRes, tb') \<Rightarrow> (Response 200 (json_first updateRes), tb'))))"

definition sql_get_photo :: "(nat \<Rightarrow> bool) \<Rightarrow> js_number \<Rightarrow> db \<Rightarrow> disk \<Rightarrow> response" where
  "sql_get_photo ok itemId tb d =
     (case query (ok 0) (select_by_id itemId tb) of
        Inl e \<Rightarrow> database_error
      | Inr [] \<Rightarrow> Response 404 (Text ''Not Found'')
      | Inr (it # _) \<Rightarrow>
          (case photo it of
             None \<Rightarrow> Response 404 (Text ''Not Found'')
           | Some p \<Rightarrow>
               if p = [] \<or> \<not> existsSync p d then Response 404 (Text ''Not Found'')
               else Response 200 (SendFile p)))"

text \<open>
  In this variant the check of \<^verbatim>\<open>req.file\<close> comes first, and everything after it is
  inside \<^verbatim>\<open>try\<close>: an exception of \<^verbatim>\<open>unlinkSync\<close> is answered like a rejected query.
\<close>

definition sql_put_photo ::
  "(nat \<Rightarrow> bool) \<Rightarrow> js_number \<Rightarrow> string option \<Rightarrow> db \<Rightarrow> disk \<Rightarrow> response \<times> db \<times> disk" where
  "sql_put_photo ok itemId file tb d =
     (case file of
        None \<Rightarrow> (Response 400 (Text ''Bad Request: No photo file provided.''), tb, d)
      | Some new_path \<Rightarrow>
          (case query (ok 0) (select_by_id itemId tb) of
             Inl e \<Rightarrow> (database_error, tb, d)
           | Inr [] \<Rightarrow> (Response 404 (Text ''Not Found''), tb, d)
           | Inr (r # _) \<Rightarrow>
               let removed = remove_photo_file (photo r) d
               in (case removed of
                     Inl e \<Rightarrow> (database_error, tb, d)
                   | Inr d' \<Rightarrow>
                       (case query (ok 1) (update_photo itemId new_path tb) of
                          Inl e \<Rightarrow> (database_error, tb, d')
                        | Inr tb' \<Rightarrow>
                            (Response 200 (Text ''Photo updated successfully.''), tb', d')))))"

definition sql_delete_item ::
  "(nat \<Rightarrow> bool) \<Rightarrow> js_number \<Rightarrow> db \<Rightarrow> disk \<Rightarrow> response \<times> db \<times> disk" where
  "sql_delete_item ok itemId tb d =
     (case query (ok 0) (select_by_id itemId tb) of
        Inl e \<Rightarrow> (database_error, tb, d)
      | Inr [] \<Rightarrow> (Response 404 (Text ''Not Found''), tb, d)
      | Inr (itemToDelete # _) \<Rightarrow>
          (case query (ok 1) (delete_by_id itemId tb) of
             Inl e \<Rightarrow> (database_error, tb, d)
           | Inr tb' \<Rightarrow>
               let removed = remove_photo_file (photo itemToDelete) d
               in (case removed of
                     Inl e \<Rightarrow> (database_error, tb', d)
                   | Inr d' \<Rightarrow> (Response 200 (Text ''Item deleted successfully.''), tb', d'))))"

definition sql_post_search ::
  "(nat \<Rightarrow> bool) \<Rightarrow> (js_number \<times> string option) option \<Rightarrow> db \<Rightarrow> response" where
  "sql_post_search ok req_body tb =
     (case req_body of
        None \<Rightarrow> uncaught
      | Some (itemId, includePhoto) \<Rightarrow>
          (case query (ok 0) (select_by_id itemId tb) of
             Inl e \<Rightarrow> database_error
           | Inr [] \<Rightarrow> Response 404 (Text ''Not Found'')
           | Inr (it # _) \<Rightarrow>
               Response 200 (Json (item_json (search_output includePhoto it)))))"

section \<open>Requests\<close>

text \<open>
  A request, with the id as \<^verbatim>\<open>parseInt\<close> returns it. The last argument of
  \<open>PostRegister\<close> and \<open>PutPhoto\<close> is the name the upload middleware gives the uploaded
  photo, \<open>None\<close> when the request has no photo part. The constructors \<open>PostRegister\<close>,
  \<open>PutItem\<close> and \<open>PostSearch\<close> are requests with a parsed body and carry its fields;
  \<open>PostRegisterNoBody\<close>, \<open>PutItemNoBody\<close> and \<open>PostSearchNoBody\<close> are the requests
  to the same routes that have no \<^verbatim>\<open>req.body\<close>. Such a register request is not
  multipart (the multipart parser always makes a body), so it has no photo either.
\<close>

datatype request =
    PostRegister "string option" "string option" "string option"
  | PostRegisterNoBody
  | GetInventory
  | GetItem js_number
  | PutItem js_number "string option" "string option"
  | PutItemNoBody js_number
  | GetPhoto js_number
  | PutPhoto js_number "string option"
  | DeleteItem js_number
  | PostSearch js_number "string option"
  | PostSearchNoBody

fun mem_handle :: "string \<Rightarrow> request \<Rightarrow> mem \<times> disk \<Rightarrow> response \<times> mem \<times> disk" where
  "mem_handle C (PostRegister n t upl) (s, d) =
     (let (file, d1) = upload_single C upl d;
          (r, s') = mem_post_register (Some (n, t)) file s
      in (r, s', d1))"
| "mem_handle C PostRegisterNoBody (s, d) =
     (let (r, s') = mem_post_register None None s in (r, s', d))"
| "mem_handle C GetInventory (s, d) = (mem_get_inventory s, s, d)"
| "mem_handle C (GetItem i) (s, d) = (mem_get_item i s, s, d)"
| "mem_handle C (PutItem i n t) (s, d) =
     (let (r, s') = mem_put_item i (Some (n, t)) s in (r, s', d))"
| "mem_handle C (PutItemNoBody i) (s, d) =
     (let (r, s') = mem_put_item i None s in (r, s', d))"
| "mem_handle C (GetPhoto i) (s, d) = (mem_get_photo i s d, s, d)"
| "mem_handle C (PutPhoto i upl) (s, d) =
     (let (file, d1) = upload_single C upl d in mem_put_photo i file s d1)"
| "mem_handle C (DeleteItem i) (s, d) = mem_delete_item i s d"
| "mem_handle C (PostSearch i flag) (s, d) = (mem_post_search (Some (i, flag)) s, s, d)"
| "mem_handle C PostSearchNoBody (s, d) = (mem_post_search None s, s, d)"

fun sql_handle ::
  "string \<Rightarrow> (nat \<Rightarrow> bool) \<Rightarrow> request \<Rightarrow> db \<times> disk \<Rightarrow> response \<times> db \<times> disk" where
  "sql_handle C ok (PostRegister n t upl) (tb, d) =
     (let (file, d1) = upload_single C upl d;
          (r, tb') = sql_post_register ok (Some (n, t)) file tb
      in (r, tb', d1))"
| "sql_handle C ok PostRegisterNoBody (tb, d) =
     (let (r, tb') = sql_post_register ok None None tb in (r, tb', d))"
| "sql_handle C ok GetInventory (tb, d) = (sql_get_inventory ok tb, tb, d)"
| "sql_handle C ok (GetItem i) (tb, d) = (sql_get_item ok i tb, tb, d)"
| "sql_handle C ok (PutItem i n t) (tb, d) =
     (let (r, tb') = sql_put_item ok i (Some (n, t)) tb in (r, tb', d))"
| "sql_handle C ok (PutItemNoBody i) (tb, d) =
     (let (r, tb') = sql_put_item ok i None tb in (r, tb', d))"
| "sql_handle C ok (GetPhoto i) (tb, d) = (sql_get_photo ok i tb d, tb, d)"
| "sql_handle C ok (PutPhoto i upl) (tb, d) =
     (let (file, d1) = upload_single C upl d in sql_put_photo ok i file tb d1)"
| "sql_handle C ok (DeleteItem i) (tb, d) = sql_delete_item ok i tb d"
| "sql_handle C ok (PostSearch i flag) (tb, d) = (sql_post_search ok (Some (i, flag)) tb, tb, d)"
| "sql_handle C ok PostSearchNoBody (tb, d) = (sql_post_search ok None tb, tb, d)"

section \<open>Reachable states and the invariant of the stores\<close>

text \<open>
  The middleware generates the name of an uploaded file at random: the name of a new
  upload is taken to be one under which nothing exists in \<^verbatim>\<open>CACHE_DIR\<close> yet.
\<close>

fun upload_of :: "request \<Rightarrow> string option" where
  "upload_of (PostRegister n t upl) = upl"
| "upload_of (PutPhoto i upl) = upl"
| "upload_of _ = None"

definition fresh_upload :: "string \<Rightarrow> request \<Rightarrow> disk \<Rightarrow> bool" where
  "fresh_upload C req d = (case upload_of req of None \<Rightarrow> True | Some f \<Rightarrow> upload_path C f \<notin> d)"

text \<open>
  The in-memory variant starts with an empty array and \<^verbatim>\<open>nextId = 1\<close>, whatever the
  cache directory holds, and then serves requests one after the other.
\<close>

inductive mem_reachable :: "string \<Rightarrow> mem \<times> disk \<Rightarrow> bool" for C :: string where
  mem_start: "mem_reachable C (mem_init, d0)"
| mem_step:
    "mem_reachable C w \<Longrightarrow> fresh_upload C req (snd w) \<Longrightarrow>
     mem_reachable C (snd (mem_handle C req w))"

text \<open>
  The SQL-backed variant, started on an empty table. \<open>P req ok\<close> says which query
  outcomes \<open>ok\<close> the runs under consideration allow for a request \<open>req\<close>.
\<close>

inductive sql_reachable ::
  "string \<Rightarrow> (request \<Rightarrow> (nat \<Rightarrow> bool) \<Rightarrow> bool) \<Rightarrow> db \<times> disk \<Rightarrow> bool"
  for C :: string and P :: "request \<Rightarrow> (nat \<Rightarrow> bool) \<Rightarrow> bool" where
  sql_start: "sql_reachable C P (db_init, d0)"
| sql_step:
    "sql_reachable C P w \<Longrightarrow> P req ok \<Longrightarrow> fresh_upload C req (snd w) \<Longrightarrow>
     sql_reachable C P (snd (sql_handle C ok req w))"

text \<open>Any query of any request may be rejected.\<close>

definition any_outcome :: "request \<Rightarrow> (nat \<Rightarrow> bool) \<Rightarrow> bool" where
  "any_outcome req ok = True"

text \<open>
  The one outcome that separates a row from its file: in a photo-replace request with a
  file, the \<^verbatim>\<open>SELECT\<close> is answered, so that the handler goes on to unlink the old
  file, and the \<^verbatim>\<open>UPDATE\<close> after it is rejected. \<open>no_update_cut\<close> allows every outcome
  but this one.
\<close>

definition update_cut :: "request \<Rightarrow> (nat \<Rightarrow> bool) \<Rightarrow> bool" where
  "update_cut req ok = (case req of PutPhoto i (Some f) \<Rightarrow> ok 0 \<and> \<not> ok 1 | _ \<Rightarrow> False)"

definition no_update_cut :: "request \<Rightarrow> (nat \<Rightarrow> bool) \<Rightarrow> bool" where
  "no_update_cut req ok = (\<not> update_cut req ok)"

text \<open>Every stored photo path names a file that exists.\<close>

definition photos_on_disk :: "item list \<Rightarrow> disk \<Rightarrow> bool" where
  "photos_on_disk items d =
     (\<forall>it \<in> set items. case photo it of None \<Rightarrow> True | Some p \<Rightarrow> p \<in> d)"

text \<open>
  What the stores maintain: ids are below the counter and pairwise different, a stored
  path is not empty and exists, and two items that store the same path have the same id.
\<close>

definition store_inv :: "item list \<Rightarrow> int \<Rightarrow> disk \<Rightarrow> bool" where
  "store_inv items n d =
     ((\<forall>it \<in> set items. item_id it < n) \<and>
      distinct (map item_id items) \<and>
      (\<forall>it \<in> set items. case photo it of None \<Rightarrow> True | Some p \<Rightarrow> p \<noteq> [] \<and> p \<in> d) \<and>
      (\<forall>a \<in> set items. \<forall>b \<in> set items.
         photo a \<noteq> None \<and> photo a = photo b \<longrightarrow> item_id a = item_id b))"

text \<open>
  The item whose photo file a request removes, and the property that the items a
  request does not aim at keep their photo reference.
\<close>

fun photo_target :: "request \<Rightarrow> js_number option" where
  "photo_target (DeleteItem i) = Some i"
| "photo_target (PutPhoto i upl) = Some i"
| "photo_target _ = None"

definition refs_kept :: "request \<Rightarrow> item list \<Rightarrow> item list \<Rightarrow> bool" where
  "refs_kept req before after =
     (\<forall>it \<in> set before.
        photo_target req = Some (Num (item_id it)) \<or>
        (\<exists>it' \<in> set after. item_id it' = item_id it \<and> photo it' = photo it))"



text \<open>A request in which the first query goes through and every later one is rejected.\<close>

definition first_only :: "nat \<Rightarrow> bool" where
  "first_only k = (k = 0)"

text \<open>\<^verbatim>\<open>CACHE_DIR\<close> is the result of \<^verbatim>\<open>path.resolve\<close>, an absolute path.\<close>

definition absolute :: "string \<Rightarrow> bool" where
  "absolute p = (case p of [] \<Rightarrow> False | c # _ \<Rightarrow> c = CHR ''/'')"

text \<open>
  Modelled from the spec: the declaration of the table is not part of the sources, and
  the column \<^verbatim>\<open>id\<close> is an "integer", in PostgreSQL a 32-bit one. So the database rejects
  a query whose id parameter is \<^verbatim>\<open>NaN\<close> or outside that range, and its sequence yields
  ids up to 2147483647; the text columns are taken to accept every value.
  \<open>answers req\<close> is the database that rejects exactly the queries with such an id.
\<close>

definition in_int4 :: "js_number \<Rightarrow> bool" where
  "in_int4 n = (case n of NaN \<Rightarrow> False | Num i \<Rightarrow> - 2147483648 \<le> i \<and> i \<le> 2147483647)"

fun id_of :: "request \<Rightarrow> js_number option" where
  "id_of (GetItem i) = Some i"
| "id_of (PutItem i n t) = Some i"
| "id_of (PutItemNoBody i) = Some i"
| "id_of (GetPhoto i) = Some i"
| "id_of (PutPhoto i upl) = Some i"
| "id_of (DeleteItem i) = Some i"
| "id_of (PostSearch i flag) = Some i"
| "id_of _ = None"

definition answers :: "request \<Rightarrow> nat \<Rightarrow> bool" where
  "answers req k = (case id_of req of None \<Rightarrow> True | Some i \<Rightarrow> in_int4 i)"

text \<open>
  Two servers that receive the same request from a client name an uploaded file
  independently: what they receive agrees up to that name.
\<close>

fun client_view :: "request \<Rightarrow> request" where
  "client_view (PostRegister n t upl) = PostRegister n t (map_option (\<lambda>f. []) upl)"
| "client_view (PutPhoto i upl) = PutPhoto i (map_option (\<lambda>f. []) upl)"
| "client_view req = req"

definition same_request :: "request \<Rightarrow> request \<Rightarrow> bool" where
  "same_request rm rs = (client_view rm = client_view rs)"

text \<open>
  The two variants serve the same sequence of client requests from their initial
  states, each with a disk of its own, every upload under a fresh name; the database
  rejects exactly the queries with an id that is not a 32-bit integer, and its id
  sequence has not run out.
\<close>

inductive both_reachable :: "string \<Rightarrow> (mem \<times> disk) \<times> (db \<times> disk) \<Rightarrow> bool"
  for C :: string where
  both_start: "both_reachable C ((mem_init, dm0), (db_init, ds0))"
| both_step:
    "both_reachable C (wm, ws) \<Longrightarrow> same_request rm rs \<Longrightarrow>
     fresh_upload C rm (snd wm) \<Longrightarrow> fresh_upload C rs (snd ws) \<Longrightarrow>
     seq (fst ws) \<le> 2147483647 \<Longrightarrow>
     both_reachable C (snd (mem_handle C rm wm), snd (sql_handle C (answers rs) rs ws))"

text \<open>
  What the status of an answer can depend on: the ids of the stored items, in their
  order, and which of them have a photo.
\<close>

definition item_shape :: "item \<Rightarrow> int \<times> bool" where
  "item_shape it = (item_id it, photo it = None)"

definition in_step :: "mem \<Rightarrow> db \<Rightarrow> bool" where
  "in_step s tb =
     (map item_shape (inventory s) = map item_shape (rows tb) \<and> nextId s = seq tb)"

text \<open>
  The requests that the two variants answer with different status codes: a photo-replace
  request without a file, or an update request without a body, for an id that no item
  has; and any other request with an id that is not a 32-bit integer.
\<close>

definition answered_differently :: "request \<Rightarrow> item list \<Rightarrow> bool" where
  "answered_differently req items =
     (case req of
        PutPhoto i None \<Rightarrow> find (has_id i) items = None
      | PutItemNoBody i \<Rightarrow> find (has_id i) items = None
      | _ \<Rightarrow> (case id_of req of None \<Rightarrow> False | Some i \<Rightarrow> \<not> in_int4 i))"

section \<open>Auxiliary facts\<close>

lemma findIndex_None: "findIndex P xs = None \<longleftrightarrow> find P xs = None"
  by (induction xs) auto

lemma findIndex_Some:
  "findIndex P xs = Some k \<Longrightarrow> k < length xs \<and> P (xs ! k) \<and> find P xs = Some (xs ! k)"
  by (induction xs arbitrary: k) (auto split: if_splits)

lemma filter_Nil_find: "filter P xs = [] \<longleftrightarrow> find P xs = None"
  by (induction xs) auto

lemma filter_Cons_find: "filter P xs = y # ys \<Longrightarrow> find P xs = Some y"
  by (induction xs) (auto split: if_splits)

lemma find_Some_mem: "find P xs = Some y \<Longrightarrow> y \<in> set xs \<and> P y"
  by (induction xs) (auto split: if_splits)

lemma find_filter_None: "find P xs = None \<Longrightarrow> filter P xs = []"
  by (simp add: filter_Nil_find)

lemma find_filter_Some: "find P xs = Some y \<Longrightarrow> \<exists>ys. filter P xs = y # ys"
  by (induction xs) (auto split: if_splits)

lemma remove_photo_file_eq:
  "remove_photo_file stored d = Inr (d - {p. stored = Some p \<and> p \<noteq> []})"
  by (auto simp: remove_photo_file_def existsSync_def unlinkSync_def split: option.splits)

lemma store_inv_append:
  assumes "store_inv xs n d" and "d \<subseteq> d'"
    and "case ph of None \<Rightarrow> True | Some p \<Rightarrow> p \<noteq> [] \<and> p \<in> d' \<and> p \<notin> d"
  shows "store_inv (xs @ [\<lparr>item_id = n, name = nm, description = ds, photo = ph\<rparr>]) (n + 1) d'"
proof -
  let ?y = "\<lparr>item_id = n, name = nm, description = ds, photo = ph\<rparr>"
  have lt: "\<forall>it\<in>set xs. item_id it < n"
    and dist: "distinct (map item_id xs)"
    and ex: "\<forall>it\<in>set xs. case photo it of None \<Rightarrow> True | Some p \<Rightarrow> p \<noteq> [] \<and> p \<in> d"
    and own: "\<forall>a\<in>set xs. \<forall>b\<in>set xs. photo a \<noteq> None \<and> photo a = photo b \<longrightarrow> item_id a = item_id b"
    using assms(1) unfolding store_inv_def by blast+
  have other: "photo a \<noteq> ph \<or> ph = None" if "a \<in> set xs" for a
    using ex that assms(3) by (cases ph; cases "photo a") auto
  show ?thesis
    unfolding store_inv_def
  proof (intro conjI)
    show "\<forall>it\<in>set (xs @ [?y]). item_id it < n + 1"
      using lt by auto
    show "distinct (map item_id (xs @ [?y]))"
      using lt dist by auto
    show "\<forall>it\<in>set (xs @ [?y]). case photo it of None \<Rightarrow> True | Some p \<Rightarrow> p \<noteq> [] \<and> p \<in> d'"
      using ex assms(2,3) by (auto split: option.splits)
    show "\<forall>a\<in>set (xs @ [?y]). \<forall>b\<in>set (xs @ [?y]).
            photo a \<noteq> None \<and> photo a = photo b \<longrightarrow> item_id a = item_id b"
      using own other by auto
  qed
qed

lemma store_inv_update_same:
  assumes "store_inv xs n d" and "k < length xs"
    and "item_id y = item_id (xs ! k)" and "photo y = photo (xs ! k)"
  shows "store_inv (xs[k := y]) n d"
proof -
  have sub: "set (xs[k := y]) \<subseteq> insert y (set xs)" by (rule set_update_subset_insert)
  have mem: "xs ! k \<in> set xs" using assms(2) by simp
  have ids: "map item_id (xs[k := y]) = map item_id xs"
    using assms(2,3) by (simp add: map_update list_update_same_conv)
  show ?thesis
    unfolding store_inv_def
  proof (intro conjI)
    show "\<forall>it\<in>set (xs[k := y]). item_id it < n"
      using assms(1,3) sub mem unfolding store_inv_def by auto
    show "distinct (map item_id (xs[k := y]))"
      using assms(1) ids unfolding store_inv_def by simp
    show "\<forall>it\<in>set (xs[k := y]). case photo it of None \<Rightarrow> True | Some p \<Rightarrow> p \<noteq> [] \<and> p \<in> d"
      using assms(1,4) sub mem unfolding store_inv_def by auto
    show "\<forall>a\<in>set (xs[k := y]). \<forall>b\<in>set (xs[k := y]).
            photo a \<noteq> None \<and> photo a = photo b \<longrightarrow> item_id a = item_id b"
    proof (intro ballI impI)
      fix a b assume a: "a \<in> set (xs[k := y])" and b: "b \<in> set (xs[k := y])"
        and e: "photo a \<noteq> None \<and> photo a = photo b"
      obtain a' where a': "a' \<in> set xs" "item_id a' = item_id a" "photo a' = photo a"
        using a sub mem assms(3,4) by (cases "a = y") auto
      obtain b' where b': "b' \<in> set xs" "item_id b' = item_id b" "photo b' = photo b"
        using b sub mem assms(3,4) by (cases "b = y") auto
      show "item_id a = item_id b"
        using assms(1) a' b' e unfolding store_inv_def by metis
    qed
  qed
qed

lemma splice1_set: "set (splice1 k xs) \<subseteq> set xs"
  unfolding splice1_def using set_take_subset [of k xs] set_drop_subset [of "Suc k" xs] by auto

lemma splice1_split:
  assumes "k < length xs"
  shows "map f xs = map f (take k xs) @ f (xs ! k) # map f (drop (Suc k) xs)"
proof -
  have "map f xs = map f (take k xs @ xs ! k # drop (Suc k) xs)"
    using id_take_nth_drop [OF assms] by simp
  then show ?thesis by simp
qed

lemma splice1_distinct:
  assumes "distinct (map f xs)"
  shows "distinct (map f (splice1 k xs))"
proof (cases "k < length xs")
  case True
  from assms splice1_split [OF True, of f]
  have "distinct (map f (take k xs) @ f (xs ! k) # map f (drop (Suc k) xs))" by simp
  then show ?thesis unfolding splice1_def by auto
next
  case False
  then show ?thesis using assms unfolding splice1_def by simp
qed

lemma splice1_other:
  assumes "distinct (map f xs)" and "k < length xs" and "a \<in> set (splice1 k xs)"
  shows "f a \<noteq> f (xs ! k)"
proof -
  from assms(1) splice1_split [OF assms(2), of f]
  have "distinct (map f (take k xs) @ f (xs ! k) # map f (drop (Suc k) xs))" by simp
  then have "f (xs ! k) \<notin> f ` set (take k xs) \<union> f ` set (drop (Suc k) xs)" by auto
  moreover have "f a \<in> f ` set (take k xs) \<union> f ` set (drop (Suc k) xs)"
    using assms(3) unfolding splice1_def by auto
  ultimately show ?thesis by metis
qed

lemma update_other:
  assumes "distinct (map f xs)" and "k < length xs" and "a \<in> set (xs[k := y])" and "a \<noteq> y"
  shows "a \<in> set xs \<and> f a \<noteq> f (xs ! k)"
proof -
  from assms(3) obtain j where j: "j < length xs" "a = xs[k := y] ! j"
    by (auto simp: in_set_conv_nth)
  with assms(4) have "j \<noteq> k" using assms(2) by auto
  with j have "a = xs ! j" by simp
  then show ?thesis
    using assms(1,2) j(1) \<open>j \<noteq> k\<close> by (simp add: distinct_conv_nth)
qed

lemma store_inv_splice:
  assumes "store_inv xs n d" and "k < length xs"
  shows "store_inv (splice1 k xs) n (d - {p. photo (xs ! k) = Some p \<and> p \<noteq> []})"
proof -
  have lt: "\<forall>it\<in>set xs. item_id it < n"
    and dist: "distinct (map item_id xs)"
    and ex: "\<forall>it\<in>set xs. case photo it of None \<Rightarrow> True | Some p \<Rightarrow> p \<noteq> [] \<and> p \<in> d"
    and own: "\<forall>a\<in>set xs. \<forall>b\<in>set xs. photo a \<noteq> None \<and> photo a = photo b \<longrightarrow> item_id a = item_id b"
    using assms(1) unfolding store_inv_def by blast+
  have mem: "xs ! k \<in> set xs" using assms(2) by simp
  have keep: "photo a \<noteq> photo (xs ! k) \<or> photo a = None" if "a \<in> set (splice1 k xs)" for a
  proof -
    have "a \<in> set xs" using that splice1_set [of k xs] by auto
    with own mem have "photo a \<noteq> None \<and> photo a = photo (xs ! k) \<longrightarrow> item_id a = item_id (xs ! k)"
      by blast
    with splice1_other [OF dist assms(2) that] show ?thesis by blast
  qed
  show ?thesis
    unfolding store_inv_def
  proof (intro conjI)
    show "\<forall>it\<in>set (splice1 k xs). item_id it < n"
      using lt splice1_set [of k xs] by auto
    show "distinct (map item_id (splice1 k xs))"
      using dist by (rule splice1_distinct)
    show "\<forall>it\<in>set (splice1 k xs). case photo it of None \<Rightarrow> True
            | Some p \<Rightarrow> p \<noteq> [] \<and> p \<in> d - {p. photo (xs ! k) = Some p \<and> p \<noteq> []}"
    proof
      fix it assume it: "it \<in> set (splice1 k xs)"
      then have "it \<in> set xs" using splice1_set [of k xs] by auto
      with ex have "case photo it of None \<Rightarrow> True | Some p \<Rightarrow> p \<noteq> [] \<and> p \<in> d" by blast
      with keep [OF it] show "case photo it of None \<Rightarrow> True
            | Some p \<Rightarrow> p \<noteq> [] \<and> p \<in> d - {p. photo (xs ! k) = Some p \<and> p \<noteq> []}"
        by (auto split: option.splits)
    qed
    show "\<forall>a\<in>set (splice1 k xs). \<forall>b\<in>set (splice1 k xs).
            photo a \<noteq> None \<and> photo a = photo b \<longrightarrow> item_id a = item_id b"
      using own splice1_set [of k xs] by blast
  qed
qed

lemma store_inv_new_photo:
  assumes "store_inv xs n d" and "k < length xs" and "new \<notin> d" and "new \<noteq> []"
  shows "store_inv (xs[k := (xs ! k)\<lparr>photo := Some new\<rparr>]) n
           (insert new d - {p. photo (xs ! k) = Some p \<and> p \<noteq> []})"
proof -
  let ?y = "(xs ! k)\<lparr>photo := Some new\<rparr>"
  let ?d = "insert new d - {p. photo (xs ! k) = Some p \<and> p \<noteq> []}"
  have lt: "\<forall>it\<in>set xs. item_id it < n"
    and dist: "distinct (map item_id xs)"
    and ex: "\<forall>it\<in>set xs. case photo it of None \<Rightarrow> True | Some p \<Rightarrow> p \<noteq> [] \<and> p \<in> d"
    and own: "\<forall>a\<in>set xs. \<forall>b\<in>set xs. photo a \<noteq> None \<and> photo a = photo b \<longrightarrow> item_id a = item_id b"
    using assms(1) unfolding store_inv_def by blast+
  have mem: "xs ! k \<in> set xs" using assms(2) by simp
  have old: "photo (xs ! k) \<noteq> Some new"
    using ex mem assms(3) by (auto split: option.splits)
  have new_in: "new \<in> ?d" using old by auto
  have ids: "map item_id (xs[k := ?y]) = map item_id xs"
    using assms(2) by (simp add: map_update list_update_same_conv)
  have rest: "a \<in> set xs \<and> item_id a \<noteq> item_id (xs ! k)"
    if "a \<in> set (xs[k := ?y])" "a \<noteq> ?y" for a
    using update_other [OF dist assms(2) that] .
  have rest_photo: "case photo a of None \<Rightarrow> True | Some p \<Rightarrow> p \<noteq> [] \<and> p \<in> ?d \<and> p \<noteq> new"
    if "a \<in> set (xs[k := ?y])" "a \<noteq> ?y" for a
  proof -
    from rest [OF that] have a: "a \<in> set xs" "item_id a \<noteq> item_id (xs ! k)" by auto
    from a(1) own mem have "photo a \<noteq> None \<and> photo a = photo (xs ! k) \<longrightarrow> item_id a = item_id (xs ! k)"
      by blast
    with a(2) have "photo a \<noteq> photo (xs ! k) \<or> photo a = None" by blast
    moreover from ex a(1) have "case photo a of None \<Rightarrow> True | Some p \<Rightarrow> p \<noteq> [] \<and> p \<in> d" by blast
    ultimately show ?thesis using assms(3) by (auto split: option.splits)
  qed
  show ?thesis
    unfolding store_inv_def
  proof (intro conjI)
    show "\<forall>it\<in>set (xs[k := ?y]). item_id it < n"
      using lt mem set_update_subset_insert [of xs k ?y] by auto
    show "distinct (map item_id (xs[k := ?y]))"
      using dist ids by simp
    show "\<forall>it\<in>set (xs[k := ?y]). case photo it of None \<Rightarrow> True | Some p \<Rightarrow> p \<noteq> [] \<and> p \<in> ?d"
    proof
      fix it assume it: "it \<in> set (xs[k := ?y])"
      show "case photo it of None \<Rightarrow> True | Some p \<Rightarrow> p \<noteq> [] \<and> p \<in> ?d"
      proof (cases "it = ?y")
        case True then show ?thesis using new_in assms(4) by simp
      next
        case False
        from rest_photo [OF it False] show ?thesis by (auto split: option.splits)
      qed
    qed
    show "\<forall>a\<in>set (xs[k := ?y]). \<forall>b\<in>set (xs[k := ?y]).
            photo a \<noteq> None \<and> photo a = photo b \<longrightarrow> item_id a = item_id b"
    proof (intro ballI impI)
      fix a b assume a: "a \<in> set (xs[k := ?y])" and b: "b \<in> set (xs[k := ?y])"
        and e: "photo a \<noteq> None \<and> photo a = photo b"
      show "item_id a = item_id b"
      proof (cases "a = ?y"; cases "b = ?y")
        assume "a = ?y" "b = ?y" then show ?thesis by simp
      next
        assume "a = ?y" "b \<noteq> ?y"
        with rest_photo [OF b] e show ?thesis by (auto split: option.splits)
      next
        assume "a \<noteq> ?y" "b = ?y"
        with rest_photo [OF a] e show ?thesis by (auto split: option.splits)
      next
        assume "a \<noteq> ?y" "b \<noteq> ?y"
        with rest [OF a] rest [OF b] have "a \<in> set xs" "b \<in> set xs" by auto
        with own e show ?thesis by blast
      qed
    qed
  qed
qed

lemma upload_path_nonempty: "upload_path C f \<noteq> []"
  by (simp add: upload_path_def)

lemma store_inv_disk_mono: "store_inv xs n d \<Longrightarrow> d \<subseteq> d' \<Longrightarrow> store_inv xs n d'"
  unfolding store_inv_def by (auto split: option.splits)

lemma mem_post_register_inv:
  assumes "store_inv (inventory s) (nextId s) d"
    and "fresh_upload C (PostRegister n t upl) d"
    and "mem_handle C (PostRegister n t upl) (s, d) = (r, s', d')"
  shows "store_inv (inventory s') (nextId s') d'"
proof (cases "truthy n")
  case False
  then have "s' = s" and "d \<subseteq> d'"
    using assms(3)
    by (auto simp: truthy_def mem_post_register_def upload_single_def split: option.splits)
  then show ?thesis using assms(1) store_inv_disk_mono by blast
next
  case True
  then obtain nm where nm: "n = Some nm" "nm \<noteq> []"
    by (auto simp: truthy_def split: option.splits)
  show ?thesis
  proof (cases upl)
    case None
    with nm assms(3) have "d' = d"
      and "s' = s\<lparr>inventory := inventory s @ [\<lparr>item_id = nextId s, name = nm,
             description = or_empty t, photo = None\<rparr>], nextId := nextId s + 1\<rparr>"
      by (auto simp: mem_post_register_def upload_single_def Let_def)
    then show ?thesis
      using store_inv_append [OF assms(1), of d None nm "or_empty t"] by simp
  next
    case (Some f)
    with nm assms(3) have d': "d' = insert (upload_path C f) d"
      and "s' = s\<lparr>inventory := inventory s @ [\<lparr>item_id = nextId s, name = nm,
             description = or_empty t, photo = Some (upload_path C f)\<rparr>], nextId := nextId s + 1\<rparr>"
      by (auto simp: mem_post_register_def upload_single_def Let_def)
    moreover have "upload_path C f \<notin> d"
      using assms(2) Some by (simp add: fresh_upload_def)
    ultimately show ?thesis
      using store_inv_append [OF assms(1), of d' "Some (upload_path C f)" nm "or_empty t"]
        upload_path_nonempty [of C f]
      by auto
  qed
qed

lemma assign_fields_same [simp]:
  "item_id (assign_fields a b it) = item_id it" "photo (assign_fields a b it) = photo it"
  by (auto simp: assign_fields_def Let_def split: option.splits)

lemma mem_put_item_inv:
  assumes "store_inv (inventory s) (nextId s) d"
    and "mem_put_item i bd s = (r, s')"
  shows "store_inv (inventory s') (nextId s') d"
proof (cases "findIndex (has_id i) (inventory s)")
  case None
  with assms show ?thesis by (simp add: mem_put_item_def)
next
  case (Some k)
  then have k: "k < length (inventory s)" using findIndex_Some by blast
  show ?thesis
  proof (cases bd)
    case None
    with Some assms show ?thesis by (simp add: mem_put_item_def)
  next
    case (Some ab)
    obtain a b where ab: "ab = (a, b)" by (cases ab)
    from Some ab \<open>findIndex (has_id i) (inventory s) = Some k\<close> assms(2)
    have "s' = s\<lparr>inventory := (inventory s)[k := assign_fields a b (inventory s ! k)]\<rparr>"
      by (auto simp: mem_put_item_def Let_def)
    then show ?thesis
      using store_inv_update_same [OF assms(1) k, of "assign_fields a b (inventory s ! k)"]
      by simp
  qed
qed

lemma mem_put_photo_inv:
  assumes "store_inv (inventory s) (nextId s) d"
    and "fresh_upload C (PutPhoto i upl) d"
    and "mem_handle C (PutPhoto i upl) (s, d) = (r, s', d')"
  shows "store_inv (inventory s') (nextId s') d'"
proof (cases "findIndex (has_id i) (inventory s)")
  case None
  with assms(3) have "s' = s" and "d \<subseteq> d'"
    by (auto simp: mem_put_photo_def upload_single_def split: option.splits)
  then show ?thesis using assms(1) store_inv_disk_mono by blast
next
  case (Some k)
  then have k: "k < length (inventory s)" using findIndex_Some by blast
  show ?thesis
  proof (cases upl)
    case None
    with Some assms(3) have "s' = s" and "d' = d"
      by (auto simp: mem_put_photo_def upload_single_def)
    then show ?thesis using assms(1) by simp
  next
    case (Some f)
    let ?new = "upload_path C f"
    have fresh: "?new \<notin> d" using assms(2) Some by (simp add: fresh_upload_def)
    from Some \<open>findIndex (has_id i) (inventory s) = Some k\<close> assms(3)
    have "s' = s\<lparr>inventory := (inventory s)[k := (inventory s ! k)\<lparr>photo := Some ?new\<rparr>]\<rparr>"
      and "d' = insert ?new d - {p. photo (inventory s ! k) = Some p \<and> p \<noteq> []}"
      by (auto simp: mem_put_photo_def upload_single_def remove_photo_file_eq Let_def)
    then show ?thesis
      using store_inv_new_photo [OF assms(1) k fresh upload_path_nonempty] by simp
  qed
qed

lemma mem_delete_item_inv:
  assumes "store_inv (inventory s) (nextId s) d"
    and "mem_delete_item i s d = (r, s', d')"
  shows "store_inv (inventory s') (nextId s') d'"
proof (cases "findIndex (has_id i) (inventory s)")
  case None
  with assms show ?thesis by (simp add: mem_delete_item_def)
next
  case (Some k)
  then have k: "k < length (inventory s)" using findIndex_Some by blast
  from Some assms(2)
  have "s' = s\<lparr>inventory := splice1 k (inventory s)\<rparr>"
    and "d' = d - {p. photo (inventory s ! k) = Some p \<and> p \<noteq> []}"
    by (auto simp: mem_delete_item_def remove_photo_file_eq Let_def)
  then show ?thesis
    using store_inv_splice [OF assms(1) k] by simp
qed

lemma mem_handle_inv:
  assumes "store_inv (inventory s) (nextId s) d"
    and "fresh_upload C req d"
    and "mem_handle C req (s, d) = (r, s', d')"
  shows "store_inv (inventory s') (nextId s') d'"
proof (cases req)
  case (PostRegister n t upl)
  with assms show ?thesis using mem_post_register_inv by blast
next
  case PostRegisterNoBody
  with assms show ?thesis by (auto simp: mem_post_register_def)
next
  case (PutItem i a b)
  with assms show ?thesis using mem_put_item_inv [of s d i "Some (a, b)"]
    by (auto split: prod.splits)
next
  case (PutItemNoBody i)
  with assms show ?thesis using mem_put_item_inv [of s d i None]
    by (auto split: prod.splits)
next
  case (PutPhoto i upl)
  with assms show ?thesis using mem_put_photo_inv by blast
next
  case (DeleteItem i)
  with assms show ?thesis using mem_delete_item_inv by auto
qed (use assms in auto)

lemma mem_reachable_inv:
  "mem_reachable C w \<Longrightarrow> store_inv (inventory (fst w)) (nextId (fst w)) (snd w)"
proof (induction rule: mem_reachable.induct)
  case (mem_start d0)
  then show ?case by (simp add: store_inv_def mem_init_def)
next
  case (mem_step w req)
  obtain s d where w: "w = (s, d)" by (cases w)
  obtain r s' d' where h: "mem_handle C req (s, d) = (r, s', d')" by (cases "mem_handle C req (s, d)")
  from mem_step w h show ?case using mem_handle_inv [of s d C req r s' d'] by simp
qed

lemma filter_first:
  "filter P xs = r # rs \<Longrightarrow> \<exists>k. findIndex P xs = Some k \<and> xs ! k = r"
  by (induction xs) (auto split: if_splits)

lemma map_absent:
  "\<forall>x \<in> set xs. \<not> P x \<Longrightarrow> map (\<lambda>r. if P r then g r else r) xs = xs"
  by (induction xs) auto

lemma filter_absent:
  "\<forall>x \<in> set xs. \<not> P x \<Longrightarrow> filter (\<lambda>r. \<not> P r) xs = xs"
  by (induction xs) auto

lemma map_is_update:
  "distinct (map item_id xs) \<Longrightarrow> findIndex (has_id i) xs = Some k \<Longrightarrow>
   map (\<lambda>r. if has_id i r then g r else r) xs = xs[k := g (xs ! k)]"
proof (induction xs arbitrary: k)
  case Nil
  then show ?case by simp
next
  case (Cons x xs)
  show ?case
  proof (cases "has_id i x")
    case True
    with Cons.prems have "k = 0" by simp
    from True Cons.prems(1) have "Num (item_id y) \<noteq> i" if "y \<in> set xs" for y
      using that by (auto simp: has_id_def image_iff)
    then have "\<forall>y \<in> set xs. \<not> has_id i y" by (simp add: has_id_def)
    note \<open>k = 0\<close> this
    with True show ?thesis by (simp add: map_absent)
  next
    case False
    with Cons.prems obtain k' where "k = Suc k'" "findIndex (has_id i) xs = Some k'"
      by auto
    with False Cons show ?thesis by simp
  qed
qed

lemma filter_is_splice:
  "distinct (map item_id xs) \<Longrightarrow> findIndex (has_id i) xs = Some k \<Longrightarrow>
   filter (\<lambda>r. \<not> has_id i r) xs = splice1 k xs"
proof (induction xs arbitrary: k)
  case Nil
  then show ?case by simp
next
  case (Cons x xs)
  show ?case
  proof (cases "has_id i x")
    case True
    with Cons.prems have "k = 0" by simp
    from True Cons.prems(1) have "Num (item_id y) \<noteq> i" if "y \<in> set xs" for y
      using that by (auto simp: has_id_def image_iff)
    then have "\<forall>y \<in> set xs. \<not> has_id i y" by (simp add: has_id_def)
    note \<open>k = 0\<close> this
    with True show ?thesis by (simp add: filter_absent splice1_def)
  next
    case False
    with Cons.prems obtain k' where "k = Suc k'" "findIndex (has_id i) xs = Some k'"
      by auto
    with False Cons show ?thesis by (simp add: splice1_def)
  qed
qed

lemma store_inv_map_same:
  assumes "store_inv xs n d"
    and "\<And>x. item_id (g x) = item_id x" and "\<And>x. photo (g x) = photo x"
  shows "store_inv (map g xs) n d"
proof -
  have ids: "map item_id (map g xs) = map item_id xs" using assms(2) by simp
  have lt: "\<forall>it\<in>set xs. item_id it < n"
    and dist: "distinct (map item_id xs)"
    and ex: "\<forall>it\<in>set xs. case photo it of None \<Rightarrow> True | Some p \<Rightarrow> p \<noteq> [] \<and> p \<in> d"
    and own: "\<forall>a\<in>set xs. \<forall>b\<in>set xs. photo a \<noteq> None \<and> photo a = photo b \<longrightarrow> item_id a = item_id b"
    using assms(1) unfolding store_inv_def by blast+
  show ?thesis
    unfolding store_inv_def
  proof (intro conjI)
    show "\<forall>it\<in>set (map g xs). item_id it < n"
      using lt assms(2) by auto
    show "distinct (map item_id (map g xs))"
      using dist ids by (simp del: map_map)
    show "\<forall>it\<in>set (map g xs). case photo it of None \<Rightarrow> True | Some p \<Rightarrow> p \<noteq> [] \<and> p \<in> d"
      using ex assms(3) by auto
    show "\<forall>a\<in>set (map g xs). \<forall>b\<in>set (map g xs).
            photo a \<noteq> None \<and> photo a = photo b \<longrightarrow> item_id a = item_id b"
    proof (intro ballI impI)
      fix a b assume "a \<in> set (map g xs)" and "b \<in> set (map g xs)"
        and e: "photo a \<noteq> None \<and> photo a = photo b"
      then obtain a' b' where "a' \<in> set xs" "a = g a'" "b' \<in> set xs" "b = g b'" by auto
      with own e assms(2,3) show "item_id a = item_id b" by metis
    qed
  qed
qed

lemma set_fields_same [simp]:
  "item_id (set_fields a b r) = item_id r" "photo (set_fields a b r) = photo r"
  by (simp_all add: set_fields_def)

lemma sql_post_register_inv:
  assumes "store_inv (rows tb) (seq tb) d"
    and "fresh_upload C (PostRegister n t upl) d"
    and "sql_handle C ok (PostRegister n t upl) (tb, d) = (r, tb', d')"
  shows "store_inv (rows tb') (seq tb') d'"
proof (cases "truthy n \<and> ok 0")
  case False
  then have "tb' = tb" and "d \<subseteq> d'"
    using assms(3)
    by (auto simp: truthy_def sql_post_register_def upload_single_def query_def
        split: option.splits if_splits)
  then show ?thesis using assms(1) store_inv_disk_mono by blast
next
  case True
  then obtain nm where nm: "n = Some nm" "nm \<noteq> []" "ok 0"
    by (auto simp: truthy_def split: option.splits)
  show ?thesis
  proof (cases upl)
    case None
    with nm assms(3) have "d' = d"
      and "tb' = tb\<lparr>rows := rows tb @ [\<lparr>item_id = seq tb, name = nm,
             description = or_empty t, photo = None\<rparr>], seq := seq tb + 1\<rparr>"
      by (auto simp: sql_post_register_def upload_single_def query_def insert_item_def Let_def)
    then show ?thesis
      using store_inv_append [OF assms(1), of d None nm "or_empty t"] by simp
  next
    case (Some f)
    with nm assms(3) have d': "d' = insert (upload_path C f) d"
      and "tb' = tb\<lparr>rows := rows tb @ [\<lparr>item_id = seq tb, name = nm,
             description = or_empty t, photo = Some (upload_path C f)\<rparr>], seq := seq tb + 1\<rparr>"
      by (auto simp: sql_post_register_def upload_single_def query_def insert_item_def Let_def)
    moreover have "upload_path C f \<notin> d"
      using assms(2) Some by (simp add: fresh_upload_def)
    ultimately show ?thesis
      using store_inv_append [OF assms(1), of d' "Some (upload_path C f)" nm "or_empty t"]
        upload_path_nonempty [of C f]
      by auto
  qed
qed

lemma sql_put_item_inv:
  assumes "store_inv (rows tb) (seq tb) d"
    and "sql_put_item ok i bd tb = (r, tb')"
  shows "store_inv (rows tb') (seq tb') d"
proof (cases bd)
  case None
  with assms show ?thesis by (simp add: sql_put_item_def)
next
  case (Some ab)
  obtain a b where ab: "ab = (a, b)" by (cases ab)
  let ?g = "\<lambda>r. if has_id i r then set_fields a b r else r"
  have "tb' = tb \<or> tb' = tb\<lparr>rows := map ?g (rows tb)\<rparr>"
    using assms(2) Some ab
    by (auto simp: sql_put_item_def query_def update_fields_def Let_def
        split: if_splits list.splits)
  moreover have "store_inv (map ?g (rows tb)) (seq tb) d"
    by (rule store_inv_map_same [OF assms(1)]) simp_all
  ultimately show ?thesis using assms(1) by auto
qed

lemma sql_put_photo_inv:
  assumes "store_inv (rows tb) (seq tb) d"
    and "fresh_upload C (PutPhoto i upl) d"
    and "no_update_cut (PutPhoto i upl) ok"
    and "sql_handle C ok (PutPhoto i upl) (tb, d) = (r, tb', d')"
  shows "store_inv (rows tb') (seq tb') d'"
proof (cases upl)
  case None
  with assms(4) have "tb' = tb" and "d' = d"
    by (auto simp: sql_put_photo_def upload_single_def)
  then show ?thesis using assms(1) by simp
next
  case (Some f)
  let ?new = "upload_path C f"
  have fresh: "?new \<notin> d" using assms(2) Some by (simp add: fresh_upload_def)
  show ?thesis
  proof (cases "ok 0")
    case False
    with Some assms(4) have "tb' = tb" and "d \<subseteq> d'"
      by (auto simp: sql_put_photo_def upload_single_def query_def)
    then show ?thesis using assms(1) store_inv_disk_mono by blast
  next
    case True
    with assms(3) Some have ok1: "ok 1"
      by (simp add: no_update_cut_def update_cut_def)
    show ?thesis
    proof (cases "select_by_id i tb")
      case Nil
      with Some True assms(4) have "tb' = tb" and "d \<subseteq> d'"
        by (auto simp: sql_put_photo_def upload_single_def query_def)
      then show ?thesis using assms(1) store_inv_disk_mono by blast
    next
      case (Cons x xs)
      then obtain k where k: "findIndex (has_id i) (rows tb) = Some k" "rows tb ! k = x"
        using filter_first [of "has_id i" "rows tb" x xs] unfolding select_by_id_def by blast
      then have len: "k < length (rows tb)" using findIndex_Some by blast
      have dist: "distinct (map item_id (rows tb))" using assms(1) by (simp add: store_inv_def)
      from Some Cons assms(4) k True ok1
      have "tb' = tb\<lparr>rows := map (\<lambda>r. if has_id i r then r\<lparr>photo := Some ?new\<rparr> else r)
                (rows tb)\<rparr>"
        and "d' = insert ?new d - {p. photo (rows tb ! k) = Some p \<and> p \<noteq> []}"
        by (auto simp: sql_put_photo_def upload_single_def query_def
            remove_photo_file_eq update_photo_def Let_def)
      then show ?thesis
        using store_inv_new_photo [OF assms(1) len fresh upload_path_nonempty]
          map_is_update [OF dist k(1), of "\<lambda>r. r\<lparr>photo := Some ?new\<rparr>"]
        by simp
    qed
  qed
qed

lemma sql_delete_item_inv:
  assumes "store_inv (rows tb) (seq tb) d"
    and "sql_delete_item ok i tb d = (r, tb', d')"
  shows "store_inv (rows tb') (seq tb') d'"
proof (cases "select_by_id i tb")
  case Nil
  with assms(2) have "tb' = tb" and "d' = d"
    by (auto simp: sql_delete_item_def query_def split: if_splits)
  then show ?thesis using assms(1) by simp
next
  case (Cons x xs)
  show ?thesis
  proof (cases "ok 0")
    case False
    with assms(2) have "tb' = tb" and "d' = d"
      by (auto simp: sql_delete_item_def query_def)
    then show ?thesis using assms(1) by simp
  next
    case ok0: True
    show ?thesis
    proof (cases "ok 1")
      case False
      with ok0 Cons assms(2) have "tb' = tb" and "d' = d"
        by (auto simp: sql_delete_item_def query_def)
      then show ?thesis using assms(1) by simp
    next
      case True
      from Cons obtain k where k: "findIndex (has_id i) (rows tb) = Some k" "rows tb ! k = x"
        using filter_first [of "has_id i" "rows tb" x xs] unfolding select_by_id_def by blast
      then have len: "k < length (rows tb)" using findIndex_Some by blast
      have dist: "distinct (map item_id (rows tb))" using assms(1) by (simp add: store_inv_def)
      from Cons assms(2) k True ok0
      have "tb' = tb\<lparr>rows := filter (\<lambda>r. \<not> has_id i r) (rows tb)\<rparr>"
        and "d' = d - {p. photo (rows tb ! k) = Some p \<and> p \<noteq> []}"
        by (auto simp: sql_delete_item_def query_def remove_photo_file_eq
            delete_by_id_def Let_def)
      then show ?thesis
        using store_inv_splice [OF assms(1) len] filter_is_splice [OF dist k(1)] by simp
    qed
  qed
qed

lemma sql_handle_inv:
  assumes "store_inv (rows tb) (seq tb) d"
    and "fresh_upload C req d"
    and "no_update_cut req ok"
    and "sql_handle C ok req (tb, d) = (r, tb', d')"
  shows "store_inv (rows tb') (seq tb') d'"
proof (cases req)
  case (PostRegister n t upl)
  with assms show ?thesis using sql_post_register_inv by blast
next
  case PostRegisterNoBody
  with assms show ?thesis by (auto simp: sql_post_register_def)
next
  case (PutItem i a b)
  with assms show ?thesis using sql_put_item_inv [of tb d ok i "Some (a, b)"]
    by (auto split: prod.splits)
next
  case (PutItemNoBody i)
  with assms show ?thesis using sql_put_item_inv [of tb d ok i None]
    by (auto split: prod.splits)
next
  case (PutPhoto i upl)
  with assms show ?thesis using sql_put_photo_inv by blast
next
  case (DeleteItem i)
  with assms show ?thesis using sql_delete_item_inv by auto
qed (use assms in auto)

lemma sql_reachable_inv:
  "sql_reachable C no_update_cut w \<Longrightarrow> store_inv (rows (fst w)) (seq (fst w)) (snd w)"
proof (induction rule: sql_reachable.induct)
  case (sql_start d0)
  then show ?case by (simp add: store_inv_def db_init_def)
next
  case (sql_step w req ok)
  obtain tb d where w: "w = (tb, d)" by (cases w)
  obtain r tb' d' where h: "sql_handle C ok req (tb, d) = (r, tb', d')"
    by (cases "sql_handle C ok req (tb, d)")
  from sql_step w h show ?case using sql_handle_inv [of tb d C req ok r tb' d'] by simp
qed

text \<open>The definitions to unfold when a handler is run on a concrete request.\<close>

lemmas js_defs = truthy_def or_empty_def json_of_photo_def item_json_def with_photo_url_def
  photo_note_def search_output_def upload_path_def upload_single_def existsSync_def
  unlinkSync_def remove_photo_file_def has_id_def

lemmas mem_defs = mem_init_def mem_post_register_def mem_get_inventory_def mem_get_item_def
  assign_fields_def mem_put_item_def mem_get_photo_def uncaught_def mem_put_photo_def
  splice1_def mem_delete_item_def mem_post_search_def

lemmas sql_defs = db_init_def query_def all_ok_def insert_item_def select_by_id_def
  select_all_def coalesce_def set_fields_def update_fields_def update_photo_def
  delete_by_id_def json_first_def database_error_def sql_post_register_def
  sql_get_inventory_def sql_get_item_def sql_put_item_def sql_get_photo_def
  sql_put_photo_def sql_delete_item_def sql_post_search_def

section \<open>The update of name and description\<close>

lemma assign_fields_partial:
  "\<not> truthy a \<Longrightarrow> name (assign_fields a b it) = name it"
  "\<not> truthy b \<Longrightarrow> description (assign_fields a b it) = description it"
  by (auto simp: assign_fields_def truthy_def Let_def split: option.splits)

lemma set_fields_omitted:
  "name (set_fields None b r) = name r"
  "description (set_fields a None r) = description r"
  by (simp_all add: set_fields_def coalesce_def)

lemma set_fields_given:
  "name (set_fields (Some n) b r) = n"
  "description (set_fields a (Some t) r) = t"
  by (simp_all add: set_fields_def coalesce_def)

text \<open>
  C1 (the update overwrites only the fields that are provided and non-empty, in both
  variants). The in-memory handler does so (\<open>assign_fields_partial\<close>), and the SQL
  statement keeps a field that is omitted (\<open>set_fields_omitted\<close>), but \<^verbatim>\<open>COALESCE\<close>
  only tests for \<^verbatim>\<open>NULL\<close>: an empty string replaces the stored value
  (\<open>set_fields_given\<close>). Run on the SQL-backed variant: register "Laptop", then send
  \<^verbatim>\<open>PUT /inventory/1\<close> with the body \<^verbatim>\<open>{"name": ""}\<close>; the answer is 200 and the
  stored name is now empty.
\<close>

theorem sql_update_empty_name_overwrites:
  "sql_handle ''/cache'' all_ok (PutItem (Num 1) (Some []) None)
     (snd (sql_handle ''/cache'' all_ok
        (PostRegister (Some ''Laptop'') (Some ''16GB RAM'') None) (db_init, {}))) =
   (Response 200
      (Json [(''id'', JNum 1), (''name'', JStr []), (''description'', JStr ''16GB RAM''),
             (''photo'', JNull)]),
    \<lparr>rows = [\<lparr>item_id = 1, name = [], description = ''16GB RAM'', photo = None\<rparr>], seq = 2\<rparr>,
    {})"
  by (simp add: js_defs sql_defs Let_def)

section \<open>Registration without a name\<close>

text \<open>
  A register request with a body whose \<^verbatim>\<open>inventory_name\<close> is missing or empty is
  answered 400 and leaves the item store as it was, array and \<^verbatim>\<open>nextId\<close> in the
  in-memory variant, table and sequence in the SQL-backed one (which sends no query, so
  this holds whatever the database would have answered). Only the disk may differ: the
  middleware has already saved an uploaded photo.
\<close>

lemma register_body_without_name_rejected:
  assumes "\<not> truthy inventory_name"
  shows "mem_handle C (PostRegister inventory_name t upl) (s, d) =
           (Response 400 (Text ''Bad Request: inventory_name is required.''), s,
            snd (upload_single C upl d)) \<and>
         sql_handle C ok (PostRegister inventory_name t upl) (tb, d) =
           (Response 400 (Text ''Bad Request: inventory_name is required.''), tb,
            snd (upload_single C upl d))"
  using assms
  by (auto simp: truthy_def mem_post_register_def sql_post_register_def
      split: option.splits prod.splits)

text \<open>A register request without a body leaves the store as it was, too.\<close>

lemma register_without_body_keeps_store:
  "snd (mem_handle C PostRegisterNoBody (s, d)) = (s, d) \<and>
   snd (sql_handle C ok PostRegisterNoBody (tb, d)) = (tb, d)"
  by (simp add: mem_post_register_def sql_post_register_def)

text \<open>
  C6 (every register request whose name field is missing or empty is answered 400 and
  leaves the item store unchanged). The store is unchanged in every such case, and a
  request with a body is answered 400 (\<open>register_body_without_name_rejected\<close>). But
  both handlers read the fields with
  \<^verbatim>\<open>const { inventory_name, description } = req.body\<close> before the test
  \<^verbatim>\<open>if (!inventory_name)\<close>, in \<^verbatim>\<open>src/main.js\<close> also before the \<^verbatim>\<open>try\<close>: for a request
  with no body at all, whose name field is missing as well, the destructuring throws
  and the answer is 500, not the 400 that the documentation of the route gives for a
  missing \<^verbatim>\<open>inventory_name\<close>. Run on both variants: \<^verbatim>\<open>POST /register\<close> without a body
  as the first request.
\<close>

theorem register_without_body_uncaught:
  "status (fst (mem_handle ''/cache'' PostRegisterNoBody (mem_init, {}))) = 500 \<and>
   snd (mem_handle ''/cache'' PostRegisterNoBody (mem_init, {})) = (mem_init, {}) \<and>
   status (fst (sql_handle ''/cache'' all_ok PostRegisterNoBody (db_init, {}))) = 500 \<and>
   snd (sql_handle ''/cache'' all_ok PostRegisterNoBody (db_init, {})) = (db_init, {})"
  by (simp add: mem_post_register_def sql_post_register_def uncaught_def)

section \<open>Deleting a photo file\<close>

text \<open>
  C4: in the item-delete and photo-replace handlers of both variants, deleting the
  previously referenced photo file never raises, is a no-op when the stored path is
  null, empty or names no existing file, and removes the file, once, when it exists.
  The guarded statement always returns a disk: the same disk in the first case, the
  disk without that one file in the second, \<^verbatim>\<open>unlinkSync\<close> being called at most once
  and only on an existing path. Each of the four handlers, when it has found the item
  (in the SQL-backed variant: and its two queries go through), answers 200 and leaves
  exactly that disk, computed from the photo the item stored: nothing else is removed,
  and the stored file is not left behind. No handler answers 500 (in the SQL-backed
  variant: when its queries go through).
\<close>

theorem photo_file_removal_never_fails:
  "remove_photo_file stored d =
     Inr (case stored of None \<Rightarrow> d | Some p \<Rightarrow> if p \<noteq> [] \<and> p \<in> d then d - {p} else d) \<and>
   (findIndex (has_id i) (inventory s) = Some k \<longrightarrow>
      mem_delete_item i s d =
        (Response 200 (Text ''Item deleted successfully.''),
         s\<lparr>inventory := splice1 k (inventory s)\<rparr>,
         (case photo (inventory s ! k) of
            None \<Rightarrow> d
          | Some p \<Rightarrow> if p \<noteq> [] \<and> p \<in> d then d - {p} else d)) \<and>
      mem_put_photo i (Some new_path) s d =
        (Response 200 (Text ''Photo updated successfully.''),
         s\<lparr>inventory := (inventory s)[k := (inventory s ! k)\<lparr>photo := Some new_path\<rparr>]\<rparr>,
         (case photo (inventory s ! k) of
            None \<Rightarrow> d
          | Some p \<Rightarrow> if p \<noteq> [] \<and> p \<in> d then d - {p} else d))) \<and>
   (ok 0 \<and> ok 1 \<and> select_by_id i tb = r # rs \<longrightarrow>
      sql_delete_item ok i tb d =
        (Response 200 (Text ''Item deleted successfully.''), delete_by_id i tb,
         (case photo r of
            None \<Rightarrow> d
          | Some p \<Rightarrow> if p \<noteq> [] \<and> p \<in> d then d - {p} else d)) \<and>
      sql_put_photo ok i (Some new_path) tb d =
        (Response 200 (Text ''Photo updated successfully.''), update_photo i new_path tb,
         (case photo r of
            None \<Rightarrow> d
          | Some p \<Rightarrow> if p \<noteq> [] \<and> p \<in> d then d - {p} else d))) \<and>
   status (fst (mem_delete_item i s d)) \<noteq> 500 \<and>
   status (fst (mem_put_photo i file s d)) \<noteq> 500 \<and>
   status (fst (sql_delete_item all_ok i tb d)) \<noteq> 500 \<and>
   status (fst (sql_put_photo all_ok i file tb d)) \<noteq> 500"
proof -
  have removal: "remove_photo_file st e =
      Inr (case st of None \<Rightarrow> e | Some p \<Rightarrow> if p \<noteq> [] \<and> p \<in> e then e - {p} else e)"
    for st e
    by (simp add: remove_photo_file_def existsSync_def unlinkSync_def split: option.splits)
  have mem_delete: "mem_delete_item i s d =
        (Response 200 (Text ''Item deleted successfully.''),
         s\<lparr>inventory := splice1 k (inventory s)\<rparr>,
         (case photo (inventory s ! k) of
            None \<Rightarrow> d
          | Some p \<Rightarrow> if p \<noteq> [] \<and> p \<in> d then d - {p} else d))"
    if "findIndex (has_id i) (inventory s) = Some k"
    using that by (simp add: mem_delete_item_def removal Let_def)
  have mem_replace: "mem_put_photo i (Some new_path) s d =
        (Response 200 (Text ''Photo updated successfully.''),
         s\<lparr>inventory := (inventory s)[k := (inventory s ! k)\<lparr>photo := Some new_path\<rparr>]\<rparr>,
         (case photo (inventory s ! k) of
            None \<Rightarrow> d
          | Some p \<Rightarrow> if p \<noteq> [] \<and> p \<in> d then d - {p} else d))"
    if "findIndex (has_id i) (inventory s) = Some k"
    using that by (simp add: mem_put_photo_def removal Let_def)
  have sql_delete: "sql_delete_item ok i tb d =
        (Response 200 (Text ''Item deleted successfully.''), delete_by_id i tb,
         (case photo r of
            None \<Rightarrow> d
          | Some p \<Rightarrow> if p \<noteq> [] \<and> p \<in> d then d - {p} else d))"
    if "ok 0" and "ok 1" and "select_by_id i tb = r # rs"
    using that by (simp add: sql_delete_item_def query_def removal Let_def)
  have sql_replace: "sql_put_photo ok i (Some new_path) tb d =
        (Response 200 (Text ''Photo updated successfully.''), update_photo i new_path tb,
         (case photo r of
            None \<Rightarrow> d
          | Some p \<Rightarrow> if p \<noteq> [] \<and> p \<in> d then d - {p} else d))"
    if "ok 0" and "ok 1" and "select_by_id i tb = r # rs"
    using that by (simp add: sql_put_photo_def query_def removal Let_def)
  have s1: "status (fst (mem_delete_item i s d)) \<noteq> 500"
    by (simp add: mem_delete_item_def removal Let_def split: option.splits)
  have s2: "status (fst (mem_put_photo i file s d)) \<noteq> 500"
    by (simp add: mem_put_photo_def removal Let_def split: option.splits)
  have s3: "status (fst (sql_delete_item all_ok i tb d)) \<noteq> 500"
    by (simp add: sql_delete_item_def removal query_def all_ok_def Let_def
        split: list.splits)
  have s4: "status (fst (sql_put_photo all_ok i file tb d)) \<noteq> 500"
    by (simp add: sql_put_photo_def removal query_def all_ok_def Let_def
        split: option.splits list.splits)
  show ?thesis
    using removal [of stored d] mem_delete mem_replace sql_delete sql_replace s1 s2 s3 s4
    by blast
qed

theorem photo_file_removal_never_fails_witness:
  "findIndex (has_id (Num 1))
     (inventory \<lparr>inventory = [\<lparr>item_id = 1, name = ''Laptop'', description = [],
                                photo = Some ''/cache/a''\<rparr>], nextId = 2\<rparr>) = Some 0 \<and>
   mem_delete_item (Num 1)
     \<lparr>inventory = [\<lparr>item_id = 1, name = ''Laptop'', description = [],
                    photo = Some ''/cache/a''\<rparr>], nextId = 2\<rparr>
     {''/cache/a'', ''/cache/b''} =
     (Response 200 (Text ''Item deleted successfully.''), \<lparr>inventory = [], nextId = 2\<rparr>,
      {''/cache/b''}) \<and>
   mem_put_photo (Num 1) (Some ''/cache/b'')
     \<lparr>inventory = [\<lparr>item_id = 1, name = ''Laptop'', description = [],
                    photo = Some ''/cache/a''\<rparr>], nextId = 2\<rparr>
     {''/cache/a'', ''/cache/b''} =
     (Response 200 (Text ''Photo updated successfully.''),
      \<lparr>inventory = [\<lparr>item_id = 1, name = ''Laptop'', description = [],
                     photo = Some ''/cache/b''\<rparr>], nextId = 2\<rparr>,
      {''/cache/b''}) \<and>
   all_ok 0 \<and> all_ok 1 \<and>
   select_by_id (Num 1)
     \<lparr>rows = [\<lparr>item_id = 1, name = ''Laptop'', description = [],
               photo = Some ''/cache/a''\<rparr>], seq = 2\<rparr> =
     [\<lparr>item_id = 1, name = ''Laptop'', description = [], photo = Some ''/cache/a''\<rparr>] \<and>
   sql_delete_item all_ok (Num 1)
     \<lparr>rows = [\<lparr>item_id = 1, name = ''Laptop'', description = [],
               photo = Some ''/cache/a''\<rparr>], seq = 2\<rparr>
     {''/cache/a'', ''/cache/b''} =
     (Response 200 (Text ''Item deleted successfully.''), \<lparr>rows = [], seq = 2\<rparr>,
      {''/cache/b''}) \<and>
   sql_put_photo all_ok (Num 1) (Some ''/cache/b'')
     \<lparr>rows = [\<lparr>item_id = 1, name = ''Laptop'', description = [],
               photo = Some ''/cache/a''\<rparr>], seq = 2\<rparr>
     {''/cache/a'', ''/cache/b''} =
     (Response 200 (Text ''Photo updated successfully.''),
      \<lparr>rows = [\<lparr>item_id = 1, name = ''Laptop'', description = [],
                photo = Some ''/cache/b''\<rparr>], seq = 2\<rparr>,
      {''/cache/b''}) \<and>
   remove_photo_file (Some ''/cache/a'') {''/cache/a'', ''/cache/b''} = Inr {''/cache/b''} \<and>
   remove_photo_file None {''/cache/b''} = Inr {''/cache/b''}"
proof -
  have e: "{''/cache/a'', ''/cache/b''} - {''/cache/a''} = {''/cache/b''}" by auto
  have k: "findIndex (has_id (Num 1))
     (inventory \<lparr>inventory = [\<lparr>item_id = 1, name = ''Laptop'', description = [],
                                photo = Some ''/cache/a''\<rparr>], nextId = 2\<rparr>) = Some 0"
    by (simp add: has_id_def)
  have q: "all_ok 0 \<and> all_ok 1 \<and>
    select_by_id (Num 1)
     \<lparr>rows = [\<lparr>item_id = 1, name = ''Laptop'', description = [],
               photo = Some ''/cache/a''\<rparr>], seq = 2\<rparr> =
     [\<lparr>item_id = 1, name = ''Laptop'', description = [], photo = Some ''/cache/a''\<rparr>]"
    by (simp add: all_ok_def select_by_id_def has_id_def)
  show ?thesis
    using k q e
      photo_file_removal_never_fails [of "Some ''/cache/a''" "{''/cache/a'', ''/cache/b''}"
        "Num 1" "\<lparr>inventory = [\<lparr>item_id = 1, name = ''Laptop'', description = [],
                    photo = Some ''/cache/a''\<rparr>], nextId = 2\<rparr>" 0 "''/cache/b''"
        all_ok "\<lparr>rows = [\<lparr>item_id = 1, name = ''Laptop'', description = [],
               photo = Some ''/cache/a''\<rparr>], seq = 2\<rparr>"
        "\<lparr>item_id = 1, name = ''Laptop'', description = [], photo = Some ''/cache/a''\<rparr>" "[]"]
      photo_file_removal_never_fails [of None "{''/cache/b''}"
        "Num 1" "\<lparr>inventory = [\<lparr>item_id = 1, name = ''Laptop'', description = [],
                    photo = Some ''/cache/a''\<rparr>], nextId = 2\<rparr>" 0 "''/cache/b''"
        all_ok "\<lparr>rows = [\<lparr>item_id = 1, name = ''Laptop'', description = [],
               photo = Some ''/cache/a''\<rparr>], seq = 2\<rparr>"
        "\<lparr>item_id = 1, name = ''Laptop'', description = [], photo = Some ''/cache/a''\<rparr>" "[]"]
    by (simp add: splice1_def delete_by_id_def update_photo_def has_id_def)
qed

lemma find_absent: "\<forall>x \<in> set xs. \<not> P x \<Longrightarrow> find P xs = None"
  by (induction xs) auto

lemma find_distinct:
  "distinct (map item_id xs) \<Longrightarrow> it \<in> set xs \<Longrightarrow> find (has_id (Num (item_id it))) xs = Some it"
proof (induction xs)
  case Nil
  then show ?case by simp
next
  case (Cons x xs)
  then show ?case by (auto simp: has_id_def image_iff)
qed

section \<open>The photo of a deleted item\<close>

text \<open>
  C8: in a reachable state of the in-memory variant, once \<^verbatim>\<open>DELETE /inventory/{id}\<close>
  has answered 200, \<^verbatim>\<open>GET /inventory/{id}/photo\<close> for the same id answers 404,
  whether or not the item had a photo and whether or not its file existed: ids are
  unique, so no item with that id is left. In the SQL-backed variant the statement
  deletes every row with the id, and the same holds when the query of the photo
  request goes through (\<open>sql_photo_after_delete_not_found\<close>).
\<close>

theorem photo_after_delete_not_found:
  assumes "mem_reachable C w"
    and "mem_handle C (DeleteItem i) w = (r, w')"
    and "status r = 200"
  shows "status (fst (mem_handle C (GetPhoto i) w')) = 404"
proof -
  obtain s d where w: "w = (s, d)" by (cases w)
  obtain s' d' where w': "w' = (s', d')" by (cases w')
  have dist: "distinct (map item_id (inventory s))"
    using mem_reachable_inv [OF assms(1)] w by (simp add: store_inv_def)
  from assms(2,3) w w' obtain k where k: "findIndex (has_id i) (inventory s) = Some k"
    by (cases "findIndex (has_id i) (inventory s)") (auto simp: mem_delete_item_def)
  then have len: "k < length (inventory s)" and idk: "Num (item_id (inventory s ! k)) = i"
    using findIndex_Some [OF k] by (auto simp: has_id_def)
  from assms(2) w w' k have s': "inventory s' = splice1 k (inventory s)"
    by (auto simp: mem_delete_item_def Let_def split: sum.splits)
  have "\<forall>x \<in> set (inventory s'). \<not> has_id i x"
    using splice1_other [OF dist len] s' idk by (auto simp: has_id_def)
  then have "find (has_id i) (inventory s') = None" by (rule find_absent)
  then show ?thesis using w' by (simp add: mem_get_photo_def)
qed

lemma sql_photo_after_delete_not_found:
  assumes "sql_handle C ok (DeleteItem i) (tb, d) = (r, w')"
    and "status r = 200" and "ok' 0"
  shows "status (fst (sql_handle C ok' (GetPhoto i) w')) = 404"
proof -
  obtain tb' d' where w': "w' = (tb', d')" by (cases w')
  from assms(1,2) w' have "tb' = delete_by_id i tb"
    by (auto simp: sql_delete_item_def query_def database_error_def Let_def
        split: if_splits list.splits sum.splits)
  then have "select_by_id i tb' = []"
    by (simp add: select_by_id_def delete_by_id_def)
  then show ?thesis using w' assms(3) by (simp add: sql_get_photo_def query_def)
qed

lemma mem_reachable_example:
  "mem_reachable ''/cache''
     (\<lparr>inventory = [\<lparr>item_id = 1, name = ''Laptop'', description = ''16GB RAM'',
                      photo = Some ''/cache/a''\<rparr>], nextId = 2\<rparr>, {''/cache/a''})"
proof -
  have "mem_reachable ''/cache'' (mem_init, {})" by (rule mem_start)
  then have "mem_reachable ''/cache''
      (snd (mem_handle ''/cache'' (PostRegister (Some ''Laptop'') (Some ''16GB RAM'') (Some ''a''))
         (mem_init, {})))"
    by (rule mem_step) (simp add: fresh_upload_def)
  then show ?thesis by (simp add: js_defs mem_defs Let_def)
qed

theorem photo_after_delete_not_found_witness:
  "mem_reachable ''/cache''
     (\<lparr>inventory = [\<lparr>item_id = 1, name = ''Laptop'', description = ''16GB RAM'',
                      photo = Some ''/cache/a''\<rparr>], nextId = 2\<rparr>, {''/cache/a''}) \<and>
   mem_handle ''/cache'' (DeleteItem (Num 1))
     (\<lparr>inventory = [\<lparr>item_id = 1, name = ''Laptop'', description = ''16GB RAM'',
                      photo = Some ''/cache/a''\<rparr>], nextId = 2\<rparr>, {''/cache/a''}) =
     (Response 200 (Text ''Item deleted successfully.''), \<lparr>inventory = [], nextId = 2\<rparr>, {}) \<and>
   status (fst (mem_handle ''/cache'' (GetPhoto (Num 1)) (\<lparr>inventory = [], nextId = 2\<rparr>, {}))) = 404"
proof -
  have del: "mem_handle ''/cache'' (DeleteItem (Num 1))
     (\<lparr>inventory = [\<lparr>item_id = 1, name = ''Laptop'', description = ''16GB RAM'',
                      photo = Some ''/cache/a''\<rparr>], nextId = 2\<rparr>, {''/cache/a''}) =
     (Response 200 (Text ''Item deleted successfully.''), \<lparr>inventory = [], nextId = 2\<rparr>, {})"
    by (simp add: js_defs mem_defs Let_def)
  show ?thesis
    using mem_reachable_example del
      photo_after_delete_not_found [OF mem_reachable_example del]
    by simp
qed

section \<open>What a request leaves of the stores\<close>

lemma update_keeps_others:
  assumes "k < length xs" and "it \<in> set xs"
  shows "it = xs ! k \<or> it \<in> set (xs[k := y])"
proof -
  from assms(2) obtain j where j: "j < length xs" "it = xs ! j"
    by (auto simp: in_set_conv_nth)
  show ?thesis
  proof (cases "j = k")
    case True
    with j show ?thesis by simp
  next
    case False
    with j have "xs[k := y] ! j = it" by simp
    moreover have "j < length (xs[k := y])" using j by simp
    ultimately show ?thesis using nth_mem by metis
  qed
qed

lemma update_has_new: "k < length xs \<Longrightarrow> y \<in> set (xs[k := y])"
  by (simp add: set_update_memI)

lemma splice_keeps_others:
  assumes "k < length xs" and "it \<in> set xs"
  shows "it = xs ! k \<or> it \<in> set (splice1 k xs)"
proof -
  have "set xs = set (take k xs @ xs ! k # drop (Suc k) xs)"
    using id_take_nth_drop [OF assms(1)] by simp
  then show ?thesis using assms(2) unfolding splice1_def by auto
qed

text \<open>The store a request of the in-memory variant leaves.\<close>

lemma mem_handle_store:
  "inventory (fst (snd (mem_handle C req (s, d)))) =
     (case req of
        PostRegister n t upl \<Rightarrow>
          if truthy n
          then inventory s @ [\<lparr>item_id = nextId s, name = the n, description = or_empty t,
                                photo = map_option (upload_path C) upl\<rparr>]
          else inventory s
      | PutItem i a b \<Rightarrow>
          (case findIndex (has_id i) (inventory s) of
             None \<Rightarrow> inventory s
           | Some k \<Rightarrow> (inventory s)[k := assign_fields a b (inventory s ! k)])
      | PutPhoto i upl \<Rightarrow>
          (case findIndex (has_id i) (inventory s) of
             None \<Rightarrow> inventory s
           | Some k \<Rightarrow>
               (case upl of
                  None \<Rightarrow> inventory s
                | Some f \<Rightarrow> (inventory s)[k := (inventory s ! k)\<lparr>photo := Some (upload_path C f)\<rparr>]))
      | DeleteItem i \<Rightarrow>
          (case findIndex (has_id i) (inventory s) of
             None \<Rightarrow> inventory s
           | Some k \<Rightarrow> splice1 k (inventory s))
      | _ \<Rightarrow> inventory s)"
proof (cases req)
  case (PostRegister n t upl)
  then show ?thesis
    by (cases upl) (auto simp: mem_post_register_def upload_single_def truthy_def Let_def
        split: option.splits)
next
  case (PutItem i a b)
  then show ?thesis
    by (auto simp: mem_put_item_def Let_def split: option.splits)
next
  case (PutPhoto i upl)
  then show ?thesis
    by (cases upl) (auto simp: mem_put_photo_def upload_single_def remove_photo_file_eq Let_def
        split: option.splits)
next
  case (DeleteItem i)
  then show ?thesis
    by (auto simp: mem_delete_item_def remove_photo_file_eq Let_def split: option.splits)
qed (simp_all add: mem_post_register_def mem_put_item_def split: option.splits)

lemma mem_refs_kept:
  "refs_kept req (inventory s) (inventory (fst (snd (mem_handle C req (s, d)))))"
  unfolding refs_kept_def
proof
  fix it assume it: "it \<in> set (inventory s)"
  let ?after = "inventory (fst (snd (mem_handle C req (s, d))))"
  show "photo_target req = Some (Num (item_id it)) \<or>
        (\<exists>it' \<in> set ?after. item_id it' = item_id it \<and> photo it' = photo it)"
  proof (cases req)
    case (PostRegister n t upl)
    then have "it \<in> set ?after" using it by (simp add: mem_handle_store del: mem_handle.simps)
    then show ?thesis by blast
  next
    case (PutItem i a b)
    show ?thesis
    proof (cases "findIndex (has_id i) (inventory s)")
      case None
      with PutItem have "it \<in> set ?after" using it by (simp add: mem_handle_store del: mem_handle.simps)
      then show ?thesis by blast
    next
      case (Some k)
      then have k: "k < length (inventory s)" using findIndex_Some by blast
      let ?y = "assign_fields a b (inventory s ! k)"
      from Some PutItem have after: "?after = (inventory s)[k := ?y]"
        by (simp add: mem_handle_store del: mem_handle.simps)
      from update_keeps_others [OF k it, of ?y] show ?thesis
      proof
        assume "it = inventory s ! k"
        then have "item_id ?y = item_id it \<and> photo ?y = photo it" by simp
        moreover have "?y \<in> set ?after" using after update_has_new [OF k] by simp
        ultimately show ?thesis by blast
      next
        assume "it \<in> set ((inventory s)[k := ?y])"
        then show ?thesis using after by auto
      qed
    qed
  next
    case (PutPhoto i upl)
    show ?thesis
    proof (cases "findIndex (has_id i) (inventory s)")
      case None
      with PutPhoto have "it \<in> set ?after" using it by (simp add: mem_handle_store del: mem_handle.simps)
      then show ?thesis by blast
    next
      case (Some k)
      then have k: "k < length (inventory s)" and idk: "Num (item_id (inventory s ! k)) = i"
        using findIndex_Some [OF Some] by (auto simp: has_id_def)
      show ?thesis
      proof (cases upl)
        case None
        with Some PutPhoto have "it \<in> set ?after" using it by (simp add: mem_handle_store del: mem_handle.simps)
        then show ?thesis by blast
      next
        case (Some f)
        let ?y = "(inventory s ! k)\<lparr>photo := Some (upload_path C f)\<rparr>"
        from Some \<open>findIndex (has_id i) (inventory s) = Some k\<close> PutPhoto
        have after: "?after = (inventory s)[k := ?y]"
          by (simp add: mem_handle_store del: mem_handle.simps)
        from update_keeps_others [OF k it, of ?y] show ?thesis
        proof
          assume "it = inventory s ! k"
          then show ?thesis using idk PutPhoto by simp
        next
          assume "it \<in> set ((inventory s)[k := ?y])"
          then show ?thesis using after by auto
        qed
      qed
    qed
  next
    case (DeleteItem i)
    show ?thesis
    proof (cases "findIndex (has_id i) (inventory s)")
      case None
      with DeleteItem have "it \<in> set ?after" using it by (simp add: mem_handle_store del: mem_handle.simps)
      then show ?thesis by blast
    next
      case (Some k)
      then have k: "k < length (inventory s)" and idk: "Num (item_id (inventory s ! k)) = i"
        using findIndex_Some [OF Some] by (auto simp: has_id_def)
      from Some DeleteItem have after: "?after = splice1 k (inventory s)"
        by (simp add: mem_handle_store del: mem_handle.simps)
      from splice_keeps_others [OF k it] show ?thesis
      proof
        assume "it = inventory s ! k"
        then show ?thesis using idk DeleteItem by simp
      next
        assume "it \<in> set (splice1 k (inventory s))"
        then show ?thesis using after by auto
      qed
    qed
  qed (use it in \<open>auto simp: mem_handle_store simp del: mem_handle.simps\<close>)
qed


text \<open>The table a request of the SQL-backed variant leaves, whatever the queries answer.\<close>

lemma sql_handle_store:
  "rows (fst (snd (sql_handle C ok req (tb, d)))) =
     (case req of
        PostRegister n t upl \<Rightarrow>
          if truthy n \<and> ok 0
          then rows tb @ [\<lparr>item_id = seq tb, name = the n, description = or_empty t,
                             photo = map_option (upload_path C) upl\<rparr>]
          else rows tb
      | PutItem i a b \<Rightarrow>
          if ok 0 \<and> select_by_id i tb \<noteq> [] \<and> ok 1
          then map (\<lambda>r. if has_id i r then set_fields a b r else r) (rows tb)
          else rows tb
      | PutPhoto i upl \<Rightarrow>
          (case upl of
             None \<Rightarrow> rows tb
           | Some f \<Rightarrow>
               if ok 0 \<and> select_by_id i tb \<noteq> [] \<and> ok 1
               then map (\<lambda>r. if has_id i r then r\<lparr>photo := Some (upload_path C f)\<rparr> else r) (rows tb)
               else rows tb)
      | DeleteItem i \<Rightarrow>
          if ok 0 \<and> select_by_id i tb \<noteq> [] \<and> ok 1
          then filter (\<lambda>r. \<not> has_id i r) (rows tb)
          else rows tb
      | _ \<Rightarrow> rows tb)"
proof (cases req)
  case (PostRegister n t upl)
  then show ?thesis
    by (cases upl) (auto simp: sql_post_register_def upload_single_def truthy_def query_def
        insert_item_def Let_def split: option.splits)
next
  case (PutItem i a b)
  then show ?thesis
    by (auto simp: sql_put_item_def query_def update_fields_def Let_def split: list.splits)
next
  case (PutPhoto i upl)
  then show ?thesis
    by (cases upl) (auto simp: sql_put_photo_def upload_single_def remove_photo_file_eq
        query_def update_photo_def Let_def split: list.splits)
next
  case (DeleteItem i)
  then show ?thesis
    by (auto simp: sql_delete_item_def remove_photo_file_eq query_def delete_by_id_def Let_def
        split: list.splits)
qed (simp_all add: sql_post_register_def sql_put_item_def)

lemma map_memI: "x \<in> set xs \<Longrightarrow> g x \<in> set (map g xs)"
  by simp

lemma sql_refs_kept:
  "refs_kept req (rows tb) (rows (fst (snd (sql_handle C ok req (tb, d)))))"
  unfolding refs_kept_def
proof
  fix it assume it: "it \<in> set (rows tb)"
  let ?after = "rows (fst (snd (sql_handle C ok req (tb, d))))"
  show "photo_target req = Some (Num (item_id it)) \<or>
        (\<exists>it' \<in> set ?after. item_id it' = item_id it \<and> photo it' = photo it)"
  proof (cases req)
    case (PostRegister n t upl)
    then have "it \<in> set ?after"
      using it by (simp add: sql_handle_store del: sql_handle.simps)
    then show ?thesis by blast
  next
    case (PutItem i a b)
    let ?g = "\<lambda>r. if has_id i r then set_fields a b r else r"
    from PutItem have "?after = rows tb \<or> ?after = map ?g (rows tb)"
      by (simp add: sql_handle_store del: sql_handle.simps)
    then show ?thesis
    proof
      assume "?after = rows tb"
      then show ?thesis using it by auto
    next
      assume after: "?after = map ?g (rows tb)"
      have "?g it \<in> set (map ?g (rows tb))" using map_memI [OF it, of ?g] .
      moreover have "item_id (?g it) = item_id it \<and> photo (?g it) = photo it" by simp
      ultimately show ?thesis unfolding after by blast
    qed
  next
    case (PutPhoto i upl)
    show ?thesis
    proof (cases "Num (item_id it) = i")
      case True
      with PutPhoto show ?thesis by simp
    next
      case False
      then have "it \<in> set ?after"
        using it PutPhoto
        by (auto simp: sql_handle_store has_id_def image_iff simp del: sql_handle.simps
            split: option.splits)
      then show ?thesis by blast
    qed
  next
    case (DeleteItem i)
    show ?thesis
    proof (cases "Num (item_id it) = i")
      case True
      with DeleteItem show ?thesis by simp
    next
      case False
      then have "it \<in> set ?after"
        using it DeleteItem
        by (auto simp: sql_handle_store has_id_def simp del: sql_handle.simps)
      then show ?thesis by blast
    qed
  qed (use it in \<open>auto simp: sql_handle_store simp del: sql_handle.simps\<close>)
qed

section \<open>Stored photo paths and the files on disk\<close>

lemma mem_photos_on_disk: "mem_reachable C (s, d) \<Longrightarrow> photos_on_disk (inventory s) d"
  using mem_reachable_inv [of C "(s, d)"]
  by (auto simp: store_inv_def photos_on_disk_def split: option.splits)

lemma sql_photos_on_disk: "sql_reachable C no_update_cut (tb, d) \<Longrightarrow> photos_on_disk (rows tb) d"
  using sql_reachable_inv [of C "(tb, d)"]
  by (auto simp: store_inv_def photos_on_disk_def split: option.splits)

text \<open>
  C3, as amended: in every state that register, update, replace-photo, delete and the
  read requests reach when they are served one after the other and every upload gets a
  fresh file name, every item whose photo is not null references a file that exists on
  disk. In the SQL-backed variant any query of any request may be rejected, with one
  exception: the runs in which a photo-replace request with a file has its \<^verbatim>\<open>UPDATE\<close>
  rejected after its \<^verbatim>\<open>SELECT\<close> was answered are left out. And in both variants,
  whatever the queries answer, a request leaves the photo reference of every item other
  than the one it deletes or whose photo it replaces.
\<close>

theorem photo_files_exist:
  "(mem_reachable C (s, d) \<longrightarrow> photos_on_disk (inventory s) d) \<and>
   (sql_reachable C no_update_cut (tb, d) \<longrightarrow> photos_on_disk (rows tb) d) \<and>
   refs_kept req (inventory s) (inventory (fst (snd (mem_handle C req (s, d))))) \<and>
   refs_kept req (rows tb) (rows (fst (snd (sql_handle C ok req (tb, d)))))"
  using mem_photos_on_disk sql_photos_on_disk mem_refs_kept sql_refs_kept by blast

lemma sql_registered_example:
  "snd (sql_handle ''/cache'' all_ok
          (PostRegister (Some ''Laptop'') (Some ''16GB RAM'') (Some ''a'')) (db_init, {})) =
   (\<lparr>rows = [\<lparr>item_id = 1, name = ''Laptop'', description = ''16GB RAM'',
               photo = Some ''/cache/a''\<rparr>], seq = 2\<rparr>, {''/cache/a''})"
  by (simp add: js_defs sql_defs Let_def)

lemma sql_reachable_example:
  assumes "P (PostRegister (Some ''Laptop'') (Some ''16GB RAM'') (Some ''a'')) all_ok"
  shows "sql_reachable ''/cache'' P
     (\<lparr>rows = [\<lparr>item_id = 1, name = ''Laptop'', description = ''16GB RAM'',
                 photo = Some ''/cache/a''\<rparr>], seq = 2\<rparr>, {''/cache/a''})"
proof -
  have "sql_reachable ''/cache'' P (db_init, {})" by (rule sql_start)
  then have "sql_reachable ''/cache'' P
      (snd (sql_handle ''/cache'' all_ok
         (PostRegister (Some ''Laptop'') (Some ''16GB RAM'') (Some ''a'')) (db_init, {})))"
    using assms by (rule sql_step) (simp add: fresh_upload_def)
  then show ?thesis unfolding sql_registered_example .
qed

text \<open>
  A run of the SQL-backed variant with rejected queries that the amended claim covers:
  register "Laptop" with a photo stored as \<^verbatim>\<open>/cache/a\<close>, then a photo-replace request
  whose \<^verbatim>\<open>SELECT\<close> is rejected (answer 500: the upload \<^verbatim>\<open>/cache/b\<close> stays on disk, the
  row and its file are as before), then a delete request whose \<^verbatim>\<open>DELETE\<close> is rejected
  after its \<^verbatim>\<open>SELECT\<close> was answered (answer 500, nothing changes).
\<close>

lemma sql_reachable_with_rejections:
  "sql_reachable ''/cache'' no_update_cut
     (\<lparr>rows = [\<lparr>item_id = 1, name = ''Laptop'', description = ''16GB RAM'',
                 photo = Some ''/cache/a''\<rparr>], seq = 2\<rparr>, {''/cache/a'', ''/cache/b''})"
proof -
  let ?tb = "\<lparr>rows = [\<lparr>item_id = 1, name = ''Laptop'', description = ''16GB RAM'',
                 photo = Some ''/cache/a''\<rparr>], seq = 2\<rparr>"
  have "sql_reachable ''/cache'' no_update_cut (?tb, {''/cache/a''})"
    by (rule sql_reachable_example) (simp add: no_update_cut_def update_cut_def)
  then have "sql_reachable ''/cache'' no_update_cut
      (snd (sql_handle ''/cache'' (\<lambda>k. False) (PutPhoto (Num 1) (Some ''b''))
         (?tb, {''/cache/a''})))"
    by (rule sql_step) (simp_all add: no_update_cut_def update_cut_def fresh_upload_def
        upload_path_def)
  moreover have "sql_handle ''/cache'' (\<lambda>k. False) (PutPhoto (Num 1) (Some ''b''))
         (?tb, {''/cache/a''}) =
       (Response 500 (Text ''Database Error''), ?tb, {''/cache/a'', ''/cache/b''})"
    by (auto simp: js_defs sql_defs Let_def)
  ultimately have "sql_reachable ''/cache'' no_update_cut (?tb, {''/cache/a'', ''/cache/b''})"
    by simp
  then have "sql_reachable ''/cache'' no_update_cut
      (snd (sql_handle ''/cache'' first_only (DeleteItem (Num 1))
         (?tb, {''/cache/a'', ''/cache/b''})))"
    by (rule sql_step) (simp_all add: no_update_cut_def update_cut_def fresh_upload_def)
  moreover have "sql_handle ''/cache'' first_only (DeleteItem (Num 1))
         (?tb, {''/cache/a'', ''/cache/b''}) =
       (Response 500 (Text ''Database Error''), ?tb, {''/cache/a'', ''/cache/b''})"
    by (simp add: js_defs sql_defs first_only_def Let_def)
  ultimately show ?thesis by simp
qed

theorem photo_files_exist_witness:
  "mem_reachable ''/cache''
     (\<lparr>inventory = [\<lparr>item_id = 1, name = ''Laptop'', description = ''16GB RAM'',
                      photo = Some ''/cache/a''\<rparr>], nextId = 2\<rparr>, {''/cache/a''}) \<and>
   photos_on_disk [\<lparr>item_id = 1, name = ''Laptop'', description = ''16GB RAM'',
                      photo = Some ''/cache/a''\<rparr>] {''/cache/a''} \<and>
   sql_reachable ''/cache'' no_update_cut
     (\<lparr>rows = [\<lparr>item_id = 1, name = ''Laptop'', description = ''16GB RAM'',
                 photo = Some ''/cache/a''\<rparr>], seq = 2\<rparr>, {''/cache/a'', ''/cache/b''}) \<and>
   photos_on_disk [\<lparr>item_id = 1, name = ''Laptop'', description = ''16GB RAM'',
                      photo = Some ''/cache/a''\<rparr>] {''/cache/a'', ''/cache/b''} \<and>
   refs_kept (PutItem (Num 1) (Some ''Notebook'') None)
     [\<lparr>item_id = 1, name = ''Laptop'', description = ''16GB RAM'', photo = Some ''/cache/a''\<rparr>]
     [\<lparr>item_id = 1, name = ''Notebook'', description = ''16GB RAM'',
        photo = Some ''/cache/a''\<rparr>]"
  using mem_reachable_example sql_reachable_with_rejections
    photo_files_exist [where C = "''/cache''" and d = "{''/cache/a''}" and ok = all_ok
      and req = "PutItem (Num 1) (Some ''Notebook'') None"
      and s = "\<lparr>inventory = [\<lparr>item_id = 1, name = ''Laptop'', description = ''16GB RAM'',
                      photo = Some ''/cache/a''\<rparr>], nextId = 2\<rparr>"
      and tb = "\<lparr>rows = [\<lparr>item_id = 1, name = ''Laptop'', description = ''16GB RAM'',
                 photo = Some ''/cache/a''\<rparr>], seq = 2\<rparr>"]
    photo_files_exist [where C = "''/cache''" and d = "{''/cache/a'', ''/cache/b''}"
      and ok = all_ok and req = "PutItem (Num 1) (Some ''Notebook'') None"
      and s = "\<lparr>inventory = [\<lparr>item_id = 1, name = ''Laptop'', description = ''16GB RAM'',
                      photo = Some ''/cache/a''\<rparr>], nextId = 2\<rparr>"
      and tb = "\<lparr>rows = [\<lparr>item_id = 1, name = ''Laptop'', description = ''16GB RAM'',
                 photo = Some ''/cache/a''\<rparr>], seq = 2\<rparr>"]
  by (simp add: js_defs mem_defs Let_def)

text \<open>
  C3 as stated fails in the SQL-backed variant, where the photo-replace handler unlinks
  the old file before it updates the row: register "Laptop" with a photo stored as
  \<^verbatim>\<open>/cache/a\<close>, then replace the photo while the \<^verbatim>\<open>UPDATE\<close> is rejected. The
  answer is 500, the file \<^verbatim>\<open>/cache/a\<close> is gone and the row still references it.
\<close>

theorem dangling_photo_counterexample:
  "sql_reachable ''/cache'' any_outcome
     (\<lparr>rows = [\<lparr>item_id = 1, name = ''Laptop'', description = ''16GB RAM'',
                 photo = Some ''/cache/a''\<rparr>], seq = 2\<rparr>, {''/cache/b''}) \<and>
   \<not> photos_on_disk [\<lparr>item_id = 1, name = ''Laptop'', description = ''16GB RAM'',
                       photo = Some ''/cache/a''\<rparr>] {''/cache/b''}"
proof
  have "sql_reachable ''/cache'' any_outcome
      (snd (sql_handle ''/cache'' first_only (PutPhoto (Num 1) (Some ''b''))
         (\<lparr>rows = [\<lparr>item_id = 1, name = ''Laptop'', description = ''16GB RAM'',
                 photo = Some ''/cache/a''\<rparr>], seq = 2\<rparr>, {''/cache/a''})))"
    by (rule sql_step [OF sql_reachable_example])
      (simp_all add: any_outcome_def fresh_upload_def upload_path_def)
  moreover have "sql_handle ''/cache'' first_only (PutPhoto (Num 1) (Some ''b''))
         (\<lparr>rows = [\<lparr>item_id = 1, name = ''Laptop'', description = ''16GB RAM'',
                 photo = Some ''/cache/a''\<rparr>], seq = 2\<rparr>, {''/cache/a''}) =
       (Response 500 (Text ''Database Error''),
        \<lparr>rows = [\<lparr>item_id = 1, name = ''Laptop'', description = ''16GB RAM'',
                 photo = Some ''/cache/a''\<rparr>], seq = 2\<rparr>, {''/cache/b''})"
    by (auto simp: js_defs sql_defs first_only_def Let_def)
  ultimately show "sql_reachable ''/cache'' any_outcome
     (\<lparr>rows = [\<lparr>item_id = 1, name = ''Laptop'', description = ''16GB RAM'',
                 photo = Some ''/cache/a''\<rparr>], seq = 2\<rparr>, {''/cache/b''})"
    by simp
  show "\<not> photos_on_disk [\<lparr>item_id = 1, name = ''Laptop'', description = ''16GB RAM'',
                       photo = Some ''/cache/a''\<rparr>] {''/cache/b''}"
    by (simp add: photos_on_disk_def)
qed

section \<open>Reading an item back\<close>



lemma sql_get_item_stored:
  assumes "sql_reachable C no_update_cut (tb, d)" and "it \<in> set (rows tb)" and "ok 0"
  shows "sql_get_item ok (Num (item_id it)) tb =
           Response 200 (Json (item_json it @
             [(''photo_url'',
               case photo it of None \<Rightarrow> JNull | Some p \<Rightarrow> JStr (photo_link (item_id it)))]))"
proof -
  have inv: "store_inv (rows tb) (seq tb) d"
    using sql_reachable_inv [OF assms(1)] by simp
  then have f: "find (has_id (Num (item_id it))) (rows tb) = Some it"
    using find_distinct assms(2) by (simp add: store_inv_def)
  from find_filter_Some [OF f] obtain rs where "select_by_id (Num (item_id it)) tb = it # rs"
    unfolding select_by_id_def by blast
  moreover have "truthy (photo it) \<longleftrightarrow> photo it \<noteq> None"
    using inv assms(2) by (auto simp: store_inv_def truthy_def split: option.splits)
  ultimately show ?thesis
    using assms(3)
    by (auto simp: sql_get_item_def query_def with_photo_url_def split: option.splits)
qed



section \<open>The responses of register and update\<close>

lemma raw_record_keys:
  "map_of (item_json it) ''photo_url'' = None"
  "map_of (item_json it) ''photo'' = Some (json_of_photo (photo it))"
  "map_of (with_photo_url it) ''photo_url'' \<noteq> None"
  by (simp_all add: item_json_def with_photo_url_def)

lemma absolute_upload_path: "absolute C \<Longrightarrow> absolute (upload_path C f)"
  by (cases C) (simp_all add: absolute_def upload_path_def)

lemma mem_register_response:
  assumes "n \<noteq> []"
  shows "mem_handle C (PostRegister (Some n) t upl) (s, d) =
           (Response 201 (Json (item_json
              \<lparr>item_id = nextId s, name = n, description = or_empty t,
               photo = map_option (upload_path C) upl\<rparr>)),
            s\<lparr>inventory := inventory s @
                 [\<lparr>item_id = nextId s, name = n, description = or_empty t,
                   photo = map_option (upload_path C) upl\<rparr>],
              nextId := nextId s + 1\<rparr>,
            d \<union> set_option (map_option (upload_path C) upl))"
  using assms by (cases upl) (simp_all add: mem_post_register_def upload_single_def Let_def)

lemma sql_register_response:
  assumes "n \<noteq> []" and "ok 0"
  shows "sql_handle C ok (PostRegister (Some n) t upl) (tb, d) =
           (Response 201 (Json (item_json
              \<lparr>item_id = seq tb, name = n, description = or_empty t,
               photo = map_option (upload_path C) upl\<rparr>)),
            tb\<lparr>rows := rows tb @
                 [\<lparr>item_id = seq tb, name = n, description = or_empty t,
                   photo = map_option (upload_path C) upl\<rparr>],
              seq := seq tb + 1\<rparr>,
            d \<union> set_option (map_option (upload_path C) upl))"
  using assms
  by (cases upl) (simp_all add: sql_post_register_def upload_single_def query_def
      insert_item_def json_first_def Let_def)

lemma mem_update_response:
  assumes "findIndex (has_id i) (inventory s) = Some k"
  shows "mem_handle C (PutItem i a b) (s, d) =
           (Response 200 (Json (item_json (assign_fields a b (inventory s ! k)))),
            s\<lparr>inventory := (inventory s)[k := assign_fields a b (inventory s ! k)]\<rparr>, d)"
  using assms by (simp add: mem_put_item_def Let_def)

lemma filter_map_first:
  "filter P xs = r # rs \<Longrightarrow> (\<And>x. P (g x) = P x) \<Longrightarrow>
   \<exists>rs'. filter P (map g xs) = g r # rs'"
  by (induction xs) (auto split: if_splits)

lemma sql_update_response:
  assumes "select_by_id i tb = r # rs" and "ok 0" and "ok 1"
  shows "sql_handle C ok (PutItem i a b) (tb, d) =
           (Response 200 (Json (item_json (set_fields a b r))),
            tb\<lparr>rows := map (\<lambda>x. if has_id i x then set_fields a b x else x) (rows tb)\<rparr>, d)"
proof -
  let ?g = "\<lambda>x. if has_id i x then set_fields a b x else x"
  have "\<And>x. has_id i (?g x) = has_id i x" by (simp add: has_id_def)
  with assms(1) obtain rs' where "filter (has_id i) (map ?g (rows tb)) = ?g r # rs'"
    unfolding select_by_id_def using filter_map_first [of "has_id i" "rows tb" r rs ?g] by blast
  moreover have "has_id i r"
    using assms(1) unfolding select_by_id_def by (metis filter_eq_ConsD)
  ultimately show ?thesis
    using assms by (simp add: sql_put_item_def query_def update_fields_def json_first_def Let_def)
qed


text \<open>
  C10: the body of a successful register response (201) and of a successful update
  response (200) is the stored record itself, in both variants (in the SQL-backed one
  when its queries go through): the object \<open>item_json\<close> of the record the handler has
  just appended or updated. Its \<^verbatim>\<open>photo\<close> field is the stored path, for a registration
  the path under which the middleware saved the upload inside \<^verbatim>\<open>CACHE_DIR\<close> (absolute,
  as \<^verbatim>\<open>CACHE_DIR\<close> is), or \<^verbatim>\<open>null\<close>; it has no \<^verbatim>\<open>photo_url\<close> field. The objects of
  the list and get-by-id handlers, \<open>with_photo_url\<close>, have one.
\<close>

theorem write_responses_are_raw_records:
  "map_of (item_json it) ''photo_url'' = None \<and>
   map_of (item_json it) ''photo'' = Some (json_of_photo (photo it)) \<and>
   map_of (with_photo_url it) ''photo_url'' \<noteq> None \<and>
   (absolute C \<longrightarrow> absolute (upload_path C f)) \<and>
   (n \<noteq> [] \<longrightarrow>
      mem_handle C (PostRegister (Some n) t upl) (s, d) =
        (Response 201 (Json (item_json
           \<lparr>item_id = nextId s, name = n, description = or_empty t,
            photo = map_option (upload_path C) upl\<rparr>)),
         s\<lparr>inventory := inventory s @
              [\<lparr>item_id = nextId s, name = n, description = or_empty t,
                photo = map_option (upload_path C) upl\<rparr>],
           nextId := nextId s + 1\<rparr>,
         d \<union> set_option (map_option (upload_path C) upl))) \<and>
   (n \<noteq> [] \<and> ok 0 \<longrightarrow>
      sql_handle C ok (PostRegister (Some n) t upl) (tb, d) =
        (Response 201 (Json (item_json
           \<lparr>item_id = seq tb, name = n, description = or_empty t,
            photo = map_option (upload_path C) upl\<rparr>)),
         tb\<lparr>rows := rows tb @
              [\<lparr>item_id = seq tb, name = n, description = or_empty t,
                photo = map_option (upload_path C) upl\<rparr>],
           seq := seq tb + 1\<rparr>,
         d \<union> set_option (map_option (upload_path C) upl))) \<and>
   (findIndex (has_id i) (inventory s) = Some k \<longrightarrow>
      mem_handle C (PutItem i a b) (s, d) =
        (Response 200 (Json (item_json (assign_fields a b (inventory s ! k)))),
         s\<lparr>inventory := (inventory s)[k := assign_fields a b (inventory s ! k)]\<rparr>, d)) \<and>
   (select_by_id i tb = r # rs \<and> ok 0 \<and> ok 1 \<longrightarrow>
      sql_handle C ok (PutItem i a b) (tb, d) =
        (Response 200 (Json (item_json (set_fields a b r))),
         tb\<lparr>rows := map (\<lambda>x. if has_id i x then set_fields a b x else x) (rows tb)\<rparr>, d))"
  using raw_record_keys [of it] absolute_upload_path [of C f]
    mem_register_response [of n C t upl s d] sql_register_response [of n ok C t upl tb d]
    mem_update_response [of i s k C a b d] sql_update_response [of i tb r rs ok C a b d]
  by blast

theorem write_responses_are_raw_records_witness:
  "absolute ''/cache'' \<and> absolute ''/cache/a'' \<and>
   mem_handle ''/cache'' (PostRegister (Some ''Laptop'') (Some ''16GB RAM'') (Some ''a''))
     (mem_init, {}) =
     (Response 201 (Json [(''id'', JNum 1), (''name'', JStr ''Laptop''),
        (''description'', JStr ''16GB RAM''), (''photo'', JStr ''/cache/a'')]),
      \<lparr>inventory = [\<lparr>item_id = 1, name = ''Laptop'', description = ''16GB RAM'',
                      photo = Some ''/cache/a''\<rparr>], nextId = 2\<rparr>,
      {''/cache/a''}) \<and>
   sql_handle ''/cache'' all_ok (PutItem (Num 1) (Some ''Notebook'') None)
     (\<lparr>rows = [\<lparr>item_id = 1, name = ''Laptop'', description = ''16GB RAM'',
                 photo = Some ''/cache/a''\<rparr>], seq = 2\<rparr>, {''/cache/a''}) =
     (Response 200 (Json [(''id'', JNum 1), (''name'', JStr ''Notebook''),
        (''description'', JStr ''16GB RAM''), (''photo'', JStr ''/cache/a'')]),
      \<lparr>rows = [\<lparr>item_id = 1, name = ''Notebook'', description = ''16GB RAM'',
                 photo = Some ''/cache/a''\<rparr>], seq = 2\<rparr>, {''/cache/a''})"
proof -
  have abs: "absolute ''/cache''" by (simp add: absolute_def)
  have sel: "select_by_id (Num 1) \<lparr>rows = [\<lparr>item_id = 1, name = ''Laptop'',
      description = ''16GB RAM'', photo = Some ''/cache/a''\<rparr>], seq = 2\<rparr> =
      \<lparr>item_id = 1, name = ''Laptop'', description = ''16GB RAM'',
        photo = Some ''/cache/a''\<rparr> # []"
    by (simp add: select_by_id_def has_id_def)
  show ?thesis
    using abs sel
      write_responses_are_raw_records [where C = "''/cache''" and f = "''a''"
        and n = "''Laptop''" and t = "Some ''16GB RAM''" and upl = "Some ''a''"
        and s = mem_init and d = "{}"]
      write_responses_are_raw_records [where C = "''/cache''" and ok = all_ok
        and i = "Num 1" and a = "Some ''Notebook''" and b = None and d = "{''/cache/a''}"
        and tb = "\<lparr>rows = [\<lparr>item_id = 1, name = ''Laptop'', description = ''16GB RAM'',
                 photo = Some ''/cache/a''\<rparr>], seq = 2\<rparr>"
        and r = "\<lparr>item_id = 1, name = ''Laptop'', description = ''16GB RAM'',
                 photo = Some ''/cache/a''\<rparr>" and rs = "[]"]
    by (simp add: js_defs mem_init_def all_ok_def set_fields_def coalesce_def)
qed

section \<open>Search by id\<close>

lemma search_output_on:
  "search_output (Some ''on'') it =
     it\<lparr>description :=
          (if truthy (photo it) then description it @ photo_note (item_id it)
           else description it)\<rparr>"
  by (simp add: search_output_def)

text \<open>
  C7, as amended: a search-by-id request with \<^verbatim>\<open>includePhoto=on\<close> for a stored item
  returns the item with the note \<^verbatim>\<open> [Photo Link: /inventory/{id}/photo]\<close> appended to
  its description when the item has a photo, and with the description as stored when
  it has none; in both cases the store (and the disk) after the request is the one
  before it: the note is in the response only. In the SQL-backed variant this is the
  case when the query goes through.
\<close>

theorem search_note_only_in_response:
  "(find (has_id i) (inventory s) = Some it \<longrightarrow>
      mem_handle C (PostSearch i (Some ''on'')) (s, d) =
        (Response 200 (Json (item_json
           (it\<lparr>description :=
                 (if truthy (photo it) then description it @ photo_note (item_id it)
                  else description it)\<rparr>))),
         s, d)) \<and>
   (select_by_id i tb = r # rs \<and> ok 0 \<longrightarrow>
      sql_handle C ok (PostSearch i (Some ''on'')) (tb, d) =
        (Response 200 (Json (item_json
           (r\<lparr>description :=
                (if truthy (photo r) then description r @ photo_note (item_id r)
                 else description r)\<rparr>))),
         tb, d))"
  by (simp add: mem_post_search_def sql_post_search_def query_def search_output_on)

lemma photo_note_1: "photo_note 1 = '' [Photo Link: /inventory/1/photo]''"
  by (simp add: photo_note_def photo_link_def num_string_def digits.simps)

theorem search_note_only_in_response_witness:
  "mem_handle ''/cache'' (PostSearch (Num 1) (Some ''on''))
     (\<lparr>inventory = [\<lparr>item_id = 1, name = ''Laptop'', description = ''16GB RAM'',
                      photo = Some ''/cache/a''\<rparr>], nextId = 2\<rparr>, {''/cache/a''}) =
     (Response 200 (Json [(''id'', JNum 1), (''name'', JStr ''Laptop''),
        (''description'', JStr ''16GB RAM [Photo Link: /inventory/1/photo]''),
        (''photo'', JStr ''/cache/a'')]),
      \<lparr>inventory = [\<lparr>item_id = 1, name = ''Laptop'', description = ''16GB RAM'',
                      photo = Some ''/cache/a''\<rparr>], nextId = 2\<rparr>, {''/cache/a''})"
proof -
  have f: "find (has_id (Num 1)) (inventory \<lparr>inventory = [\<lparr>item_id = 1, name = ''Laptop'',
      description = ''16GB RAM'', photo = Some ''/cache/a''\<rparr>], nextId = 2\<rparr>) =
      Some \<lparr>item_id = 1, name = ''Laptop'', description = ''16GB RAM'',
        photo = Some ''/cache/a''\<rparr>"
    by (simp add: has_id_def)
  show ?thesis
    using f search_note_only_in_response [where C = "''/cache''" and i = "Num 1"
        and d = "{''/cache/a''}"
        and s = "\<lparr>inventory = [\<lparr>item_id = 1, name = ''Laptop'',
          description = ''16GB RAM'', photo = Some ''/cache/a''\<rparr>], nextId = 2\<rparr>"
        and it = "\<lparr>item_id = 1, name = ''Laptop'', description = ''16GB RAM'',
          photo = Some ''/cache/a''\<rparr>"]
    by (simp add: truthy_def item_json_def json_of_photo_def photo_note_1)
qed

text \<open>
  C7 as stated fails for an item without a photo, which the handlers exclude with
  \<^verbatim>\<open>&& result.photo\<close>: the description comes back without a note.
\<close>

theorem search_without_photo_counterexample:
  "mem_handle ''/cache'' (PostSearch (Num 1) (Some ''on''))
     (\<lparr>inventory = [\<lparr>item_id = 1, name = ''Laptop'', description = ''16GB RAM'',
                      photo = None\<rparr>], nextId = 2\<rparr>, {}) =
     (Response 200 (Json [(''id'', JNum 1), (''name'', JStr ''Laptop''),
        (''description'', JStr ''16GB RAM''), (''photo'', JNull)]),
      \<lparr>inventory = [\<lparr>item_id = 1, name = ''Laptop'', description = ''16GB RAM'',
                      photo = None\<rparr>], nextId = 2\<rparr>, {})"
  by (simp add: js_defs mem_defs)

section \<open>Replacing a photo\<close>

lemma sql_put_photo_no_file:
  "sql_handle C ok (PutPhoto i None) (tb, d) =
     (Response 400 (Text ''Bad Request: No photo file provided.''), tb, d)"
  by (simp add: sql_put_photo_def upload_single_def)

lemma sql_put_photo_unknown:
  "ok 0 \<Longrightarrow> select_by_id i tb = [] \<Longrightarrow>
   sql_handle C ok (PutPhoto i (Some f)) (tb, d) =
     (Response 404 (Text ''Not Found''), tb, insert (upload_path C f) d)"
  by (simp add: sql_put_photo_def upload_single_def query_def)

lemma sql_put_photo_done:
  "ok 0 \<Longrightarrow> ok 1 \<Longrightarrow> select_by_id i tb = r # rs \<Longrightarrow>
   sql_handle C ok (PutPhoto i (Some f)) (tb, d) =
     (Response 200 (Text ''Photo updated successfully.''),
      update_photo i (upload_path C f) tb,
      insert (upload_path C f) d - {p. photo r = Some p \<and> p \<noteq> []})"
  by (simp add: sql_put_photo_def upload_single_def query_def remove_photo_file_eq)

lemma mem_put_photo_unknown:
  "find (has_id i) (inventory s) = None \<Longrightarrow>
   mem_handle C (PutPhoto i upl) (s, d) =
     (Response 404 (Text ''Not Found''), s, d \<union> set_option (map_option (upload_path C) upl))"
  by (cases upl) (simp_all add: mem_put_photo_def upload_single_def findIndex_None [symmetric])

lemma mem_put_photo_no_file:
  "findIndex (has_id i) (inventory s) = Some k \<Longrightarrow>
   mem_handle C (PutPhoto i None) (s, d) =
     (Response 400 (Text ''Bad Request: No photo file provided.''), s, d)"
  by (simp add: mem_put_photo_def upload_single_def)

lemma mem_put_photo_done:
  "findIndex (has_id i) (inventory s) = Some k \<Longrightarrow>
   mem_handle C (PutPhoto i (Some f)) (s, d) =
     (Response 200 (Text ''Photo updated successfully.''),
      s\<lparr>inventory := (inventory s)[k := (inventory s ! k)\<lparr>photo := Some (upload_path C f)\<rparr>]\<rparr>,
      insert (upload_path C f) d - {p. photo (inventory s ! k) = Some p \<and> p \<noteq> []})"
  by (simp add: mem_put_photo_def upload_single_def remove_photo_file_eq Let_def)

lemma update_photo_sets:
  "\<forall>x \<in> set (rows (update_photo i p tb)). has_id i x \<longrightarrow> photo x = Some p"
proof (intro ballI impI)
  fix x assume "x \<in> set (rows (update_photo i p tb))" and h: "has_id i x"
  then obtain r where r: "r \<in> set (rows tb)"
    and x: "x = (if has_id i r then r\<lparr>photo := Some p\<rparr> else r)"
    by (auto simp: update_photo_def)
  show "photo x = Some p"
  proof (cases "has_id i r")
    case True
    with x show ?thesis by simp
  next
    case False
    with x h show ?thesis by simp
  qed
qed

text \<open>
  C5, as amended. SQL-backed variant: a photo-replace request without a file is
  answered 400; with a file and an unknown id, 404 (when the query goes through);
  otherwise, when both queries go through, 200, the old file (if the stored path is
  not null and exists) is removed, the uploaded file stays where the middleware saved
  it, and the photo of the item is the new path. In-memory variant: an unknown id is
  answered 404 whether or not a file was uploaded; a known id without a file, 400; a
  known id with a file, 200 with the same effect. In every case the middleware has
  saved an uploaded file before the handler runs.
\<close>

theorem replace_photo_outcomes:
  "sql_handle C ok (PutPhoto i None) (tb, d) =
     (Response 400 (Text ''Bad Request: No photo file provided.''), tb, d) \<and>
   (ok 0 \<and> select_by_id i tb = [] \<longrightarrow>
      sql_handle C ok (PutPhoto i (Some f)) (tb, d) =
        (Response 404 (Text ''Not Found''), tb, insert (upload_path C f) d)) \<and>
   (ok 0 \<and> ok 1 \<and> select_by_id i tb = r # rs \<longrightarrow>
      sql_handle C ok (PutPhoto i (Some f)) (tb, d) =
        (Response 200 (Text ''Photo updated successfully.''),
         update_photo i (upload_path C f) tb,
         insert (upload_path C f) d - {p. photo r = Some p \<and> p \<noteq> []})) \<and>
   (find (has_id i) (inventory s) = None \<longrightarrow>
      mem_handle C (PutPhoto i upl) (s, d) =
        (Response 404 (Text ''Not Found''), s,
         d \<union> set_option (map_option (upload_path C) upl))) \<and>
   (findIndex (has_id i) (inventory s) = Some k \<longrightarrow>
      mem_handle C (PutPhoto i None) (s, d) =
        (Response 400 (Text ''Bad Request: No photo file provided.''), s, d) \<and>
      mem_handle C (PutPhoto i (Some f)) (s, d) =
        (Response 200 (Text ''Photo updated successfully.''),
         s\<lparr>inventory :=
              (inventory s)[k := (inventory s ! k)\<lparr>photo := Some (upload_path C f)\<rparr>]\<rparr>,
         insert (upload_path C f) d - {p. photo (inventory s ! k) = Some p \<and> p \<noteq> []}))"
  by (intro conjI impI; (elim conjE)?)
    (simp_all add: sql_put_photo_no_file sql_put_photo_unknown sql_put_photo_done
      mem_put_photo_unknown mem_put_photo_no_file mem_put_photo_done
      del: mem_handle.simps sql_handle.simps)

theorem replace_photo_outcomes_witness:
  "sql_handle ''/cache'' all_ok (PutPhoto (Num 1) (Some ''b''))
     (\<lparr>rows = [\<lparr>item_id = 1, name = ''Laptop'', description = ''16GB RAM'',
                 photo = Some ''/cache/a''\<rparr>], seq = 2\<rparr>, {''/cache/a''}) =
     (Response 200 (Text ''Photo updated successfully.''),
      \<lparr>rows = [\<lparr>item_id = 1, name = ''Laptop'', description = ''16GB RAM'',
                 photo = Some ''/cache/b''\<rparr>], seq = 2\<rparr>, {''/cache/b''}) \<and>
   sql_handle ''/cache'' all_ok (PutPhoto (Num 7) (Some ''b'')) (db_init, {}) =
     (Response 404 (Text ''Not Found''), db_init, {''/cache/b''}) \<and>
   mem_handle ''/cache'' (PutPhoto (Num 7) (Some ''b'')) (mem_init, {}) =
     (Response 404 (Text ''Not Found''), mem_init, {''/cache/b''}) \<and>
   mem_handle ''/cache'' (PutPhoto (Num 1) (Some ''b''))
     (\<lparr>inventory = [\<lparr>item_id = 1, name = ''Laptop'', description = ''16GB RAM'',
                      photo = Some ''/cache/a''\<rparr>], nextId = 2\<rparr>, {''/cache/a''}) =
     (Response 200 (Text ''Photo updated successfully.''),
      \<lparr>inventory = [\<lparr>item_id = 1, name = ''Laptop'', description = ''16GB RAM'',
                      photo = Some ''/cache/b''\<rparr>], nextId = 2\<rparr>, {''/cache/b''})"
proof -
  let ?it = "\<lparr>item_id = 1, name = ''Laptop'', description = ''16GB RAM'',
               photo = Some ''/cache/a''\<rparr>"
  have sel: "select_by_id (Num 1) \<lparr>rows = [?it], seq = 2\<rparr> = ?it # []"
    by (simp add: select_by_id_def has_id_def)
  have none: "select_by_id (Num 7) db_init = []" "find (has_id (Num 7)) (inventory mem_init) = None"
    by (simp_all add: select_by_id_def db_init_def mem_init_def)
  have idx: "findIndex (has_id (Num 1)) (inventory \<lparr>inventory = [?it], nextId = 2\<rparr>) = Some 0"
    by (simp add: has_id_def)
  have d: "\<And>q::string. {p. q = p \<and> p \<noteq> []} = (if q = [] then {} else {q})"
    by auto
  have e: "{''/cache/b'', ''/cache/a''} - {''/cache/a''} = {''/cache/b''}"
    by auto
  show ?thesis
    using sel none idx d e
      replace_photo_outcomes [where C = "''/cache''" and ok = all_ok and i = "Num 1" and f = "''b''"
        and d = "{''/cache/a''}" and tb = "\<lparr>rows = [?it], seq = 2\<rparr>" and r = ?it and rs = "[]"
        and s = "\<lparr>inventory = [?it], nextId = 2\<rparr>" and k = 0]
      replace_photo_outcomes [where C = "''/cache''" and ok = all_ok and i = "Num 7" and f = "''b''"
        and d = "{}" and tb = db_init and s = mem_init and upl = "Some ''b''"]
    by (simp add: all_ok_def upload_path_def update_photo_def has_id_def
        del: mem_handle.simps sql_handle.simps)
qed

text \<open>
  C5 as stated fails in the in-memory variant, which looks the item up before it looks
  at the file: without a file and with an unknown id the answer is 404.
\<close>

theorem replace_photo_unknown_item_counterexample:
  "mem_handle ''/cache'' (PutPhoto (Num 7) None) (mem_init, {}) =
     (Response 404 (Text ''Not Found''), mem_init, {})"
  by (simp add: js_defs mem_defs)

section \<open>The two variants side by side\<close>

lemma same_request_forms:
  assumes "same_request rm rs"
  shows "(\<exists>n t um us. rm = PostRegister n t um \<and> rs = PostRegister n t us \<and>
            (um = None \<longleftrightarrow> us = None)) \<or>
         (\<exists>i um us. rm = PutPhoto i um \<and> rs = PutPhoto i us \<and> (um = None \<longleftrightarrow> us = None)) \<or>
         (rm = rs \<and> (\<forall>n t u. rs \<noteq> PostRegister n t u) \<and> (\<forall>i u. rs \<noteq> PutPhoto i u))"
  using assms by (cases rm; cases rs) (auto simp: same_request_def)

lemma same_find:
  "map item_shape xs = map item_shape ys \<Longrightarrow>
   findIndex (has_id i) xs = findIndex (has_id i) ys"
proof (induction xs arbitrary: ys)
  case Nil
  then show ?case by simp
next
  case (Cons x xs)
  then obtain y ys' where ys: "ys = y # ys'" by (cases ys) auto
  with Cons.prems have hd: "item_shape x = item_shape y"
    and tl: "map item_shape xs = map item_shape ys'"
    by simp_all
  from hd have "has_id i x = has_id i y" by (simp add: item_shape_def has_id_def)
  with Cons.IH [OF tl] ys show ?case by simp
qed

lemma same_nth:
  assumes "map item_shape xs = map item_shape ys" and "k < length xs"
  shows "item_shape (xs ! k) = item_shape (ys ! k)"
proof -
  have "length ys = length xs" using assms(1) by (metis length_map)
  with assms show ?thesis by (metis nth_map)
qed

lemma same_lookup:
  assumes "map item_shape xs = map item_shape ys"
  shows "(find (has_id i) xs = None \<and> findIndex (has_id i) xs = None \<and>
          findIndex (has_id i) ys = None \<and> filter (has_id i) ys = []) \<or>
         (\<exists>k y rs. find (has_id i) xs = Some (xs ! k) \<and> findIndex (has_id i) xs = Some k \<and>
            findIndex (has_id i) ys = Some k \<and> k < length xs \<and> k < length ys \<and>
            filter (has_id i) ys = y # rs \<and> ys ! k = y \<and>
            (photo y = None \<longleftrightarrow> photo (xs ! k) = None) \<and>
            Num (item_id (xs ! k)) = i \<and> Num (item_id y) = i)"
proof (cases "findIndex (has_id i) xs")
  case None
  then have "find (has_id i) xs = None" by (simp add: findIndex_None)
  moreover from same_find [OF assms, of i] None have "findIndex (has_id i) ys = None" by simp
  moreover from this have "filter (has_id i) ys = []"
    by (simp add: findIndex_None filter_Nil_find)
  ultimately show ?thesis using None by simp
next
  case (Some k)
  from findIndex_Some [OF Some]
  have k: "k < length xs" "has_id i (xs ! k)" "find (has_id i) xs = Some (xs ! k)" by auto
  from same_find [OF assms, of i] Some have ky: "findIndex (has_id i) ys = Some k" by simp
  from findIndex_Some [OF ky]
  have y: "k < length ys" "has_id i (ys ! k)" "find (has_id i) ys = Some (ys ! k)" by auto
  from find_filter_Some [OF y(3)] obtain rs where rs: "filter (has_id i) ys = ys ! k # rs" by blast
  from same_nth [OF assms k(1)] have "photo (ys ! k) = None \<longleftrightarrow> photo (xs ! k) = None"
    by (simp add: item_shape_def)
  with Some k ky y rs show ?thesis by (auto simp: has_id_def)
qed

text \<open>What the in-memory variant answers when no item has the id.\<close>

lemma absent_status:
  assumes "findIndex (has_id i) (inventory s) = None"
  shows "status (mem_get_item i s) = 404"
    and "status (mem_post_search (Some (i, flag)) s) = 404"
    and "status (mem_get_photo i s d) = 404"
    and "status (fst (mem_put_item i bd s)) = 404"
    and "status (fst (mem_delete_item i s d)) = 404"
    and "status (fst (mem_put_photo i file s d)) = 404"
proof -
  from assms have f: "find (has_id i) (inventory s) = None" by (simp add: findIndex_None)
  show "status (mem_get_item i s) = 404" using f by (simp add: mem_get_item_def)
  show "status (mem_post_search (Some (i, flag)) s) = 404"
    using f by (simp add: mem_post_search_def)
  show "status (mem_get_photo i s d) = 404" using f by (simp add: mem_get_photo_def)
  show "status (fst (mem_put_item i bd s)) = 404" using assms by (simp add: mem_put_item_def)
  show "status (fst (mem_delete_item i s d)) = 404"
    using assms by (simp add: mem_delete_item_def)
  show "status (fst (mem_put_photo i file s d)) = 404"
    using assms by (simp add: mem_put_photo_def)
qed

text \<open>What the SQL-backed variant answers when its first query is rejected.\<close>

lemma rejected_status:
  assumes "\<not> ok 0"
  shows "status (sql_get_item ok i tb) = 500"
    and "status (sql_post_search ok (Some (i, flag)) tb) = 500"
    and "status (sql_get_photo ok i tb d) = 500"
    and "status (fst (sql_put_item ok i bd tb)) = 500"
    and "status (fst (sql_delete_item ok i tb d)) = 500"
    and "status (fst (sql_put_photo ok i (Some p) tb d)) = 500"
  using assms
  by (simp_all add: sql_get_item_def sql_post_search_def sql_get_photo_def sql_put_item_def
      sql_delete_item_def sql_put_photo_def query_def database_error_def uncaught_def
      split: option.splits)

text \<open>
  With the same ids in the same order, a photo at the same items, every stored photo on
  the disk of its variant and the queries of the request answered, the handlers take
  the same branch.
\<close>

lemma same_status:
  assumes shape: "map item_shape (inventory s) = map item_shape (rows tb)"
    and ok: "ok 0" "ok 1"
  shows "status (mem_get_item i s) = status (sql_get_item ok i tb)"
    and "status (mem_post_search (Some (i, flag)) s) =
         status (sql_post_search ok (Some (i, flag)) tb)"
    and "status (fst (mem_put_item i (Some (a, b)) s)) =
         status (fst (sql_put_item ok i (Some (a, b)) tb))"
    and "status (fst (mem_delete_item i s dm)) = status (fst (sql_delete_item ok i tb ds))"
    and "status (fst (mem_put_photo i (Some p) s dm)) =
         status (fst (sql_put_photo ok i (Some q) tb ds))"
proof -
  note look = same_lookup [OF shape, of i]
  show "status (mem_get_item i s) = status (sql_get_item ok i tb)"
    using look ok
    by (auto simp: mem_get_item_def sql_get_item_def select_by_id_def query_def)
  show "status (mem_post_search (Some (i, flag)) s) =
        status (sql_post_search ok (Some (i, flag)) tb)"
    using look ok
    by (auto simp: mem_post_search_def sql_post_search_def select_by_id_def query_def)
  show "status (fst (mem_put_item i (Some (a, b)) s)) =
        status (fst (sql_put_item ok i (Some (a, b)) tb))"
    using look ok
    by (auto simp: mem_put_item_def sql_put_item_def select_by_id_def query_def
        update_fields_def Let_def)
  show "status (fst (mem_delete_item i s dm)) = status (fst (sql_delete_item ok i tb ds))"
    using look ok
    by (auto simp: mem_delete_item_def sql_delete_item_def select_by_id_def query_def
        remove_photo_file_eq Let_def)
  show "status (fst (mem_put_photo i (Some p) s dm)) =
        status (fst (sql_put_photo ok i (Some q) tb ds))"
    using look ok
    by (auto simp: mem_put_photo_def sql_put_photo_def select_by_id_def query_def
        remove_photo_file_eq Let_def)
qed

text \<open>
  For a known id, a photo-replace request without a file is answered 400 and an update
  request without a body 500 by both variants, which send no query.
\<close>

lemma same_status_known:
  assumes "find (has_id i) (inventory s) \<noteq> None"
  shows "status (fst (mem_put_photo i None s dm)) = 400"
    and "status (fst (sql_put_photo ok i None tb ds)) = 400"
    and "status (fst (mem_put_item i None s)) = 500"
    and "status (fst (sql_put_item ok i None tb)) = 500"
proof -
  from assms obtain k where k: "findIndex (has_id i) (inventory s) = Some k"
    by (cases "findIndex (has_id i) (inventory s)") (auto simp: findIndex_None)
  show "status (fst (mem_put_photo i None s dm)) = 400" using k by (simp add: mem_put_photo_def)
  show "status (fst (sql_put_photo ok i None tb ds)) = 400" by (simp add: sql_put_photo_def)
  show "status (fst (mem_put_item i None s)) = 500"
    using k by (simp add: mem_put_item_def uncaught_def)
  show "status (fst (sql_put_item ok i None tb)) = 500"
    by (simp add: sql_put_item_def uncaught_def)
qed

lemma same_status_get_photo:
  assumes shape: "map item_shape (inventory s) = map item_shape (rows tb)"
    and minv: "store_inv (inventory s) (nextId s) dm"
    and sinv: "store_inv (rows tb) (seq tb) ds"
    and ok: "ok 0"
  shows "status (mem_get_photo i s dm) = status (sql_get_photo ok i tb ds)"
proof -
  from same_lookup [OF shape, of i] show ?thesis
  proof (elim disjE exE conjE)
    assume "find (has_id i) (inventory s) = None" "filter (has_id i) (rows tb) = []"
    then show ?thesis
      using ok by (simp add: mem_get_photo_def sql_get_photo_def select_by_id_def query_def)
  next
    fix k y rs
    assume f: "find (has_id i) (inventory s) = Some (inventory s ! k)"
      and k: "k < length (inventory s)" "k < length (rows tb)"
      and fl: "filter (has_id i) (rows tb) = y # rs" and y: "rows tb ! k = y"
      and ph: "photo y = None \<longleftrightarrow> photo (inventory s ! k) = None"
    have "inventory s ! k \<in> set (inventory s)" using k(1) by simp
    with minv have pm: "case photo (inventory s ! k) of None \<Rightarrow> True | Some p \<Rightarrow> p \<noteq> [] \<and> p \<in> dm"
      unfolding store_inv_def by blast
    have "y \<in> set (rows tb)" using k(2) y nth_mem by blast
    with sinv have ps: "case photo y of None \<Rightarrow> True | Some p \<Rightarrow> p \<noteq> [] \<and> p \<in> ds"
      unfolding store_inv_def by blast
    show ?thesis
      using f fl ph pm ps ok
      by (cases "photo (inventory s ! k)"; cases "photo y")
        (simp_all add: mem_get_photo_def sql_get_photo_def select_by_id_def query_def
          existsSync_def)
  qed
qed

text \<open>The id counters after a request.\<close>

lemma mem_handle_counter:
  "nextId (fst (snd (mem_handle C req (s, d)))) =
     (case req of
        PostRegister n t upl \<Rightarrow> if truthy n then nextId s + 1 else nextId s
      | _ \<Rightarrow> nextId s)"
proof (cases req)
  case (PostRegister n t upl)
  then show ?thesis
    by (cases upl) (auto simp: mem_post_register_def upload_single_def truthy_def Let_def
        split: option.splits)
next
  case (PutItem i a b)
  then show ?thesis by (auto simp: mem_put_item_def Let_def split: option.splits)
next
  case (PutPhoto i upl)
  then show ?thesis
    by (cases upl) (auto simp: mem_put_photo_def upload_single_def remove_photo_file_eq Let_def
        split: option.splits)
next
  case (DeleteItem i)
  then show ?thesis
    by (auto simp: mem_delete_item_def remove_photo_file_eq Let_def split: option.splits)
qed (simp_all add: mem_post_register_def mem_put_item_def split: option.splits)

lemma sql_handle_counter:
  "seq (fst (snd (sql_handle C ok req (tb, d)))) =
     (case req of
        PostRegister n t upl \<Rightarrow> if truthy n \<and> ok 0 then seq tb + 1 else seq tb
      | _ \<Rightarrow> seq tb)"
proof (cases req)
  case (PostRegister n t upl)
  then show ?thesis
    by (cases upl) (auto simp: sql_post_register_def upload_single_def truthy_def query_def
        insert_item_def Let_def split: option.splits)
next
  case (PutItem i a b)
  then show ?thesis
    by (auto simp: sql_put_item_def query_def update_fields_def Let_def split: list.splits)
next
  case (PutPhoto i upl)
  then show ?thesis
    by (cases upl) (auto simp: sql_put_photo_def upload_single_def remove_photo_file_eq
        query_def update_photo_def Let_def split: list.splits)
next
  case (DeleteItem i)
  then show ?thesis
    by (auto simp: sql_delete_item_def remove_photo_file_eq query_def delete_by_id_def Let_def
        split: list.splits)
qed (simp_all add: sql_post_register_def sql_put_item_def)

lemma map_splice1: "map f (splice1 k xs) = splice1 k (map f xs)"
  by (simp add: splice1_def take_map drop_map)

lemma same_ids:
  assumes "map item_shape xs = map item_shape ys"
  shows "map item_id xs = map item_id ys"
proof -
  have "map fst (map item_shape xs) = map fst (map item_shape ys)" using assms by simp
  then show ?thesis by (simp add: item_shape_def comp_def)
qed

text \<open>The stored ids stay within the range of the column.\<close>

lemma mem_handle_ids:
  assumes "\<forall>it \<in> set (inventory s). 1 \<le> item_id it" and "1 \<le> nextId s"
  shows "(\<forall>it \<in> set (inventory (fst (snd (mem_handle C req (s, d))))). 1 \<le> item_id it) \<and>
         1 \<le> nextId (fst (snd (mem_handle C req (s, d))))"
proof
  show "1 \<le> nextId (fst (snd (mem_handle C req (s, d))))"
    using assms(2) by (cases req) (simp_all add: mem_handle_counter del: mem_handle.simps)
  let ?xs = "inventory s"
  show "\<forall>it \<in> set (inventory (fst (snd (mem_handle C req (s, d))))). 1 \<le> item_id it"
  proof (cases req)
    case (PostRegister n t upl)
    then show ?thesis
      using assms by (auto simp: mem_handle_store simp del: mem_handle.simps)
  next
    case (PutItem i a b)
    show ?thesis
    proof (cases "findIndex (has_id i) ?xs")
      case None
      with PutItem assms(1) show ?thesis
        by (simp add: mem_handle_store del: mem_handle.simps)
    next
      case (Some k)
      then have "k < length ?xs" using findIndex_Some by blast
      then have "1 \<le> item_id (assign_fields a b (?xs ! k))" using assms(1) by simp
      moreover have "set (?xs[k := assign_fields a b (?xs ! k)]) \<subseteq>
          insert (assign_fields a b (?xs ! k)) (set ?xs)"
        by (rule set_update_subset_insert)
      ultimately have "\<forall>it \<in> set (?xs[k := assign_fields a b (?xs ! k)]). 1 \<le> item_id it"
        using assms(1) by blast
      with PutItem Some show ?thesis
        by (simp add: mem_handle_store del: mem_handle.simps)
    qed
  next
    case (PutPhoto i upl)
    show ?thesis
    proof (cases "findIndex (has_id i) ?xs")
      case None
      with PutPhoto assms(1) show ?thesis
        by (simp add: mem_handle_store del: mem_handle.simps)
    next
      case (Some k)
      then have k: "k < length ?xs" using findIndex_Some by blast
      show ?thesis
      proof (cases upl)
        case None
        with PutPhoto Some assms(1) show ?thesis
          by (simp add: mem_handle_store del: mem_handle.simps)
      next
        case (Some f)
        let ?y = "(?xs ! k)\<lparr>photo := Some (upload_path C f)\<rparr>"
        have "1 \<le> item_id ?y" using assms(1) k by simp
        moreover have "set (?xs[k := ?y]) \<subseteq> insert ?y (set ?xs)"
          by (rule set_update_subset_insert)
        ultimately have "\<forall>it \<in> set (?xs[k := ?y]). 1 \<le> item_id it"
          using assms(1) by blast
        with PutPhoto Some \<open>findIndex (has_id i) ?xs = Some k\<close> show ?thesis
          by (simp add: mem_handle_store del: mem_handle.simps)
      qed
    qed
  next
    case (DeleteItem i)
    show ?thesis
    proof (cases "findIndex (has_id i) ?xs")
      case None
      with DeleteItem assms(1) show ?thesis
        by (simp add: mem_handle_store del: mem_handle.simps)
    next
      case (Some k)
      have "\<forall>it \<in> set (splice1 k ?xs). 1 \<le> item_id it"
        using assms(1) splice1_set [of k ?xs] by blast
      with DeleteItem Some show ?thesis
        by (simp add: mem_handle_store del: mem_handle.simps)
    qed
  qed (use assms(1) in \<open>simp_all add: mem_handle_store del: mem_handle.simps\<close>)
qed

lemma stored_id_in_int4:
  assumes "\<forall>it \<in> set xs. 1 \<le> item_id it \<and> item_id it < n" and "n \<le> 2147483647"
    and "findIndex (has_id i) xs = Some k"
  shows "in_int4 i"
proof -
  from findIndex_Some [OF assms(3)] have "xs ! k \<in> set xs" and "Num (item_id (xs ! k)) = i"
    by (simp_all add: has_id_def)
  with assms(1,2) show ?thesis by (auto simp: in_int4_def)
qed

text \<open>
  A request leaves the two stores in step: the same ids in the same order, a photo at
  the same items.
\<close>

lemma step_same_store:
  assumes shape: "map item_shape (inventory s) = map item_shape (rows tb)"
    and cnt: "nextId s = seq tb"
    and dist: "distinct (map item_id (inventory s))"
    and range: "\<forall>it \<in> set (inventory s). 1 \<le> item_id it \<and> item_id it < nextId s"
    and top: "nextId s \<le> 2147483647"
    and req: "same_request rm rs"
  shows "map item_shape (inventory (fst (snd (mem_handle C rm (s, dm))))) =
         map item_shape (rows (fst (snd (sql_handle C (answers rs) rs (tb, ds)))))"
proof -
  let ?xs = "inventory s" and ?ys = "rows tb"
  have disty: "distinct (map item_id ?ys)" using dist same_ids [OF shape] by simp
  have known: "in_int4 i" if "findIndex (has_id i) ?xs = Some k" for i k
    using stored_id_in_int4 [OF range top that] .
  from same_request_forms [OF req] show ?thesis
  proof (elim disjE exE conjE)
    fix n t um us
    assume "rm = PostRegister n t um" "rs = PostRegister n t us" "(um = None) = (us = None)"
    then show ?thesis
      using shape cnt
      by (simp add: mem_handle_store sql_handle_store answers_def item_shape_def
          del: mem_handle.simps sql_handle.simps)
  next
    fix i um us
    assume rm: "rm = PutPhoto i um" and rs: "rs = PutPhoto i us"
      and same: "(um = None) = (us = None)"
    show ?thesis
    proof (cases us)
      case None
      with rm rs same shape show ?thesis
        by (simp add: mem_handle_store sql_handle_store
            del: mem_handle.simps sql_handle.simps split: option.splits)
    next
      case (Some g)
      with same obtain f where um: "um = Some f" by (cases um) auto
      let ?newm = "upload_path C f" and ?news = "upload_path C g"
      from same_lookup [OF shape, of i] show ?thesis
      proof (elim disjE exE conjE)
        assume "findIndex (has_id i) ?xs = None" "filter (has_id i) ?ys = []"
        with rm rs um Some shape show ?thesis
          by (simp add: mem_handle_store sql_handle_store select_by_id_def
              del: mem_handle.simps sql_handle.simps)
      next
        fix k y rs'
        assume k: "findIndex (has_id i) ?xs = Some k" "k < length ?xs" "k < length ?ys"
          and ky: "findIndex (has_id i) ?ys = Some k"
          and fl: "filter (has_id i) ?ys = y # rs'"
          and ids: "Num (item_id (?xs ! k)) = i" "?ys ! k = y" "Num (item_id y) = i"
        from ids have same_id: "item_id (?ys ! k) = item_id (?xs ! k)" by auto
        have "map (\<lambda>r. if has_id i r then r\<lparr>photo := Some ?news\<rparr> else r) ?ys =
              ?ys[k := (?ys ! k)\<lparr>photo := Some ?news\<rparr>]"
          by (rule map_is_update [OF disty ky])
        moreover have "map item_shape (?ys[k := (?ys ! k)\<lparr>photo := Some ?news\<rparr>]) =
              (map item_shape ?ys)[k := (item_id (?xs ! k), False)]"
          using same_id by (simp add: map_update item_shape_def)
        moreover have "map item_shape (?xs[k := (?xs ! k)\<lparr>photo := Some ?newm\<rparr>]) =
              (map item_shape ?xs)[k := (item_id (?xs ! k), False)]"
          by (simp add: map_update item_shape_def)
        ultimately show ?thesis
          using rm rs um Some k fl shape known [OF k(1)]
          by (simp add: mem_handle_store sql_handle_store select_by_id_def answers_def
              del: mem_handle.simps sql_handle.simps)
      qed
    qed
  next
    assume eq: "rm = rs" and nr: "\<forall>n t u. rs \<noteq> PostRegister n t u"
      and np: "\<forall>i u. rs \<noteq> PutPhoto i u"
    show ?thesis
    proof (cases rs)
      case (PutItem i a b)
      let ?g = "\<lambda>r. if has_id i r then set_fields a b r else r"
      have g: "map item_shape (map ?g ?ys) = map item_shape ?ys"
        by (simp add: item_shape_def)
      from same_lookup [OF shape, of i] show ?thesis
      proof (elim disjE exE conjE)
        assume "findIndex (has_id i) ?xs = None" "filter (has_id i) ?ys = []"
        with PutItem eq shape show ?thesis
          by (simp add: mem_handle_store sql_handle_store select_by_id_def
              del: mem_handle.simps sql_handle.simps)
      next
        fix k y rs'
        assume k: "findIndex (has_id i) ?xs = Some k" "k < length ?xs"
          and f: "filter (has_id i) ?ys = y # rs'"
        have "map item_shape (?xs[k := assign_fields a b (?xs ! k)]) = map item_shape ?xs"
          using k(2) by (simp add: map_update item_shape_def list_update_same_conv)
        with PutItem eq k f g shape known [OF k(1)] show ?thesis
          by (simp add: mem_handle_store sql_handle_store select_by_id_def answers_def
              del: mem_handle.simps sql_handle.simps)
      qed
    next
      case (DeleteItem i)
      from same_lookup [OF shape, of i] show ?thesis
      proof (elim disjE exE conjE)
        assume "findIndex (has_id i) ?xs = None" "filter (has_id i) ?ys = []"
        with DeleteItem eq shape show ?thesis
          by (simp add: mem_handle_store sql_handle_store select_by_id_def
              del: mem_handle.simps sql_handle.simps)
      next
        fix k y rs'
        assume k: "findIndex (has_id i) ?xs = Some k"
          and ky: "findIndex (has_id i) ?ys = Some k"
          and fl: "filter (has_id i) ?ys = y # rs'"
        have "filter (\<lambda>r. \<not> has_id i r) ?ys = splice1 k ?ys"
          by (rule filter_is_splice [OF disty ky])
        with DeleteItem eq k fl shape known [OF k] show ?thesis
          by (simp add: mem_handle_store sql_handle_store select_by_id_def answers_def
              map_splice1 del: mem_handle.simps sql_handle.simps)
      qed
    qed (use eq nr np shape in \<open>simp_all add: mem_handle_store sql_handle_store
          del: mem_handle.simps sql_handle.simps\<close>)
  qed
qed

lemma step_same_counter:
  assumes "nextId s = seq tb" and "same_request rm rs"
  shows "nextId (fst (snd (mem_handle C rm (s, dm)))) =
         seq (fst (snd (sql_handle C (answers rs) rs (tb, ds))))"
  using same_request_forms [OF assms(2)] assms(1)
  by (cases rs)
    (auto simp: mem_handle_counter sql_handle_counter answers_def
      simp del: mem_handle.simps sql_handle.simps)

lemma answers_no_update_cut: "no_update_cut rs (answers rs)"
  by (simp add: no_update_cut_def update_cut_def answers_def split: request.splits option.splits)

text \<open>
  What paired runs maintain: each state is a reachable state of its variant, the two
  stores are in step, and the ids count from 1.
\<close>

lemma both_reachable_in_step:
  "both_reachable C w \<Longrightarrow>
   mem_reachable C (fst w) \<and> sql_reachable C no_update_cut (snd w) \<and>
   in_step (fst (fst w)) (fst (snd w)) \<and>
   (\<forall>it \<in> set (inventory (fst (fst w))). 1 \<le> item_id it) \<and> 1 \<le> nextId (fst (fst w))"
proof (induction rule: both_reachable.induct)
  case (both_start dm0 ds0)
  have "mem_reachable C (mem_init, dm0)" by (rule mem_start)
  moreover have "sql_reachable C no_update_cut (db_init, ds0)" by (rule sql_start)
  moreover have "in_step mem_init db_init"
    by (simp add: in_step_def mem_init_def db_init_def)
  moreover have "(\<forall>it \<in> set (inventory mem_init). 1 \<le> item_id it) \<and> 1 \<le> nextId mem_init"
    by (simp add: mem_init_def)
  ultimately show ?case by simp
next
  case (both_step wm ws rm rs)
  obtain s dm where wm: "wm = (s, dm)" by (cases wm)
  obtain tb ds where ws: "ws = (tb, ds)" by (cases ws)
  from both_step.IH wm ws have mreach: "mem_reachable C (s, dm)"
    and sreach: "sql_reachable C no_update_cut (tb, ds)"
    and shape: "map item_shape (inventory s) = map item_shape (rows tb)"
    and cnt: "nextId s = seq tb"
    and low: "\<forall>it \<in> set (inventory s). 1 \<le> item_id it" "1 \<le> nextId s"
    by (auto simp: in_step_def)
  have inv: "store_inv (inventory s) (nextId s) dm"
    using mem_reachable_inv [OF mreach] by simp
  then have dist: "distinct (map item_id (inventory s))"
    and below: "\<forall>it \<in> set (inventory s). item_id it < nextId s"
    by (simp_all add: store_inv_def)
  from low(1) below have range: "\<forall>it \<in> set (inventory s). 1 \<le> item_id it \<and> item_id it < nextId s"
    by blast
  have top: "nextId s \<le> 2147483647" using both_step.hyps(5) ws cnt by simp
  have "mem_reachable C (snd (mem_handle C rm (s, dm)))"
    using mem_step [OF mreach, of rm] both_step.hyps(3) wm by simp
  moreover have "sql_reachable C no_update_cut (snd (sql_handle C (answers rs) rs (tb, ds)))"
    using sql_step [OF sreach answers_no_update_cut, of rs] both_step.hyps(4) ws by simp
  moreover have "in_step (fst (snd (mem_handle C rm (s, dm))))
      (fst (snd (sql_handle C (answers rs) rs (tb, ds))))"
    unfolding in_step_def
    using step_same_store [OF shape cnt dist range top both_step.hyps(2)]
      step_same_counter [OF cnt both_step.hyps(2)] by blast
  moreover note mem_handle_ids [OF low, of C rm dm]
  ultimately show ?case using wm ws by simp
qed

text \<open>
  C2, as amended: let the in-memory and the SQL-backed variant serve the same sequence
  of client requests from their initial states, each with a disk of its own and each
  storing every upload under a fresh file name of its own, the database answering every
  query but those whose id parameter is not a 32-bit integer, and its id sequence not
  run out. Then the two variants answer a further request with the same status code,
  except in three cases, in which the in-memory variant answers 404: a photo-replace
  request that has no uploaded file and an unknown id (the SQL-backed variant answers
  400); an update request that has no body and an unknown id (500); and any other
  request with an id that is not a 32-bit integer (500). (What the variants store may
  differ by then in photo paths, and in names and descriptions after an update with an
  empty string; no status depends on those.)
\<close>

theorem same_status_unless_answered_differently:
  assumes "both_reachable C ((s, dm), (tb, ds))"
    and "same_request rm rs"
    and "seq tb \<le> 2147483647"
  shows "(\<not> answered_differently rs (inventory s) \<longrightarrow>
            status (fst (mem_handle C rm (s, dm))) =
            status (fst (sql_handle C (answers rs) rs (tb, ds)))) \<and>
         (answered_differently rs (inventory s) \<longrightarrow>
            status (fst (mem_handle C rm (s, dm))) = 404 \<and>
            status (fst (sql_handle C (answers rs) rs (tb, ds))) =
              (if \<exists>i. rs = PutPhoto i None then 400 else 500))"
proof -
  from both_reachable_in_step [OF assms(1)]
  have mreach: "mem_reachable C (s, dm)" and sreach: "sql_reachable C no_update_cut (tb, ds)"
    and shape: "map item_shape (inventory s) = map item_shape (rows tb)"
    and cnt: "nextId s = seq tb"
    and low: "\<forall>it \<in> set (inventory s). 1 \<le> item_id it"
    by (auto simp: in_step_def)
  have minv: "store_inv (inventory s) (nextId s) dm"
    using mem_reachable_inv [OF mreach] by simp
  have sinv: "store_inv (rows tb) (seq tb) ds"
    using sql_reachable_inv [OF sreach] by simp
  from minv low have range: "\<forall>it \<in> set (inventory s). 1 \<le> item_id it \<and> item_id it < nextId s"
    unfolding store_inv_def by blast
  have top: "nextId s \<le> 2147483647" using assms(3) cnt by simp
  have absent: "findIndex (has_id i) (inventory s) = None" if "\<not> in_int4 i" for i
  proof (cases "findIndex (has_id i) (inventory s)")
    case (Some k)
    from stored_id_in_int4 [OF range top Some] that show ?thesis by simp
  qed simp
  have unknown: "find (has_id i) (inventory s) = None" if "\<not> in_int4 i" for i
    using absent [OF that] by (simp add: findIndex_None)
  from same_request_forms [OF assms(2)] show ?thesis
  proof (elim disjE exE conjE)
    fix n t um us
    assume "rm = PostRegister n t um" "rs = PostRegister n t us"
    then show ?thesis
      by (cases um; cases us; cases n)
        (auto simp: answered_differently_def answers_def mem_post_register_def
          sql_post_register_def upload_single_def query_def insert_item_def json_first_def
          Let_def)
  next
    fix i um us
    assume rm: "rm = PutPhoto i um" and rs: "rs = PutPhoto i us"
      and same: "(um = None) = (us = None)"
    show ?thesis
    proof (cases us)
      case None
      with same have um: "um = None" by simp
      show ?thesis
      proof (cases "find (has_id i) (inventory s)")
        case None
        then have "findIndex (has_id i) (inventory s) = None" by (simp add: findIndex_None)
        from absent_status(6) [OF this, of None dm] None rm rs um \<open>us = None\<close>
        show ?thesis
          by (simp add: answered_differently_def upload_single_def sql_put_photo_def)
      next
        case (Some it)
        then have "find (has_id i) (inventory s) \<noteq> None" by simp
        note known = same_status_known(1,2) [OF this]
        from Some rm rs um \<open>us = None\<close> show ?thesis
          by (simp add: answered_differently_def upload_single_def known)
      qed
    next
      case (Some g)
      with same obtain f where um: "um = Some f" by (cases um) auto
      show ?thesis
      proof (cases "in_int4 i")
        case True
        then have ok: "answers rs 0" "answers rs 1" using rs by (simp_all add: answers_def)
        from same_status(5) [where ok = "answers rs" and i = i and p = "upload_path C f"
            and dm = "insert (upload_path C f) dm" and q = "upload_path C g"
            and ds = "insert (upload_path C g) ds", OF shape ok]
          True rm rs um Some
        show ?thesis
          by (simp add: answered_differently_def upload_single_def)
      next
        case False
        then have no: "\<not> answers rs 0" using rs by (simp add: answers_def)
        from absent_status(6) [OF absent [OF False], of "Some (upload_path C f)"
            "insert (upload_path C f) dm"]
          rejected_status(6) [where ok = "answers rs" and i = i and p = "upload_path C g"
              and tb = tb and d = "insert (upload_path C g) ds", OF no]
          False rm rs um Some
        show ?thesis
          by (simp add: answered_differently_def upload_single_def)
      qed
    qed
  next
    assume eq: "rm = rs" and nr: "\<forall>n t u. rs \<noteq> PostRegister n t u"
      and np: "\<forall>i u. rs \<noteq> PutPhoto i u"
    show ?thesis
    proof (cases rs)
      case (PostRegister n t u)
      with nr show ?thesis by simp
    next
      case PostRegisterNoBody
      with eq show ?thesis
        by (simp add: answered_differently_def mem_post_register_def sql_post_register_def)
    next
      case GetInventory
      with eq show ?thesis
        by (simp add: answered_differently_def answers_def mem_get_inventory_def
            sql_get_inventory_def query_def)
    next
      case (GetItem i)
      show ?thesis
      proof (cases "in_int4 i")
        case True
        then have ok: "answers rs 0" "answers rs 1" using GetItem by (simp_all add: answers_def)
        from same_status(1) [where ok = "answers rs" and i = i, OF shape ok] True GetItem eq show ?thesis
          by (simp add: answered_differently_def)
      next
        case False
        then have no: "\<not> answers rs 0" using GetItem by (simp add: answers_def)
        from absent_status(1) [OF absent [OF False]] rejected_status(1) [where ok = "answers rs"
            and i = i and tb = tb, OF no]
          False GetItem eq
        show ?thesis by (simp add: answered_differently_def)
      qed
    next
      case (PutItem i a b)
      show ?thesis
      proof (cases "in_int4 i")
        case True
        then have ok: "answers rs 0" "answers rs 1" using PutItem by (simp_all add: answers_def)
        from same_status(3) [where ok = "answers rs" and i = i and a = a and b = b, OF shape ok]
          True PutItem eq show ?thesis
          by (auto simp: answered_differently_def split: prod.splits)
      next
        case False
        then have no: "\<not> answers rs 0" using PutItem by (simp add: answers_def)
        from absent_status(4) [OF absent [OF False], of "Some (a, b)"]
          rejected_status(4) [where ok = "answers rs" and i = i and bd = "Some (a, b)"
              and tb = tb, OF no]
            False PutItem eq
        show ?thesis by (auto simp: answered_differently_def split: prod.splits)
      qed
    next
      case (PutItemNoBody i)
      show ?thesis
      proof (cases "find (has_id i) (inventory s)")
        case None
        then have "findIndex (has_id i) (inventory s) = None" by (simp add: findIndex_None)
        from absent_status(4) [OF this, of None] None PutItemNoBody eq show ?thesis
          by (auto simp: answered_differently_def sql_put_item_def uncaught_def
              split: prod.splits)
      next
        case (Some it)
        then have f: "find (has_id i) (inventory s) \<noteq> None" by simp
        note known = same_status_known(3,4) [OF f]
        from known(1) known(2) [where ok = "answers rs" and tb = tb] Some PutItemNoBody eq
        show ?thesis
          by (auto simp: answered_differently_def split: prod.splits)
      qed
    next
      case (GetPhoto i)
      show ?thesis
      proof (cases "in_int4 i")
        case True
        then have ok: "answers rs 0" using GetPhoto by (simp add: answers_def)
        from same_status_get_photo [where ok = "answers rs" and i = i, OF shape minv sinv ok]
          True GetPhoto eq show ?thesis
          by (simp add: answered_differently_def)
      next
        case False
        then have no: "\<not> answers rs 0" using GetPhoto by (simp add: answers_def)
        from absent_status(3) [OF absent [OF False], of dm] rejected_status(3) [where ok = "answers rs"
            and i = i and tb = tb and d = ds, OF no]
          False GetPhoto eq
        show ?thesis by (simp add: answered_differently_def)
      qed
    next
      case (PutPhoto i u)
      with np show ?thesis by simp
    next
      case (DeleteItem i)
      show ?thesis
      proof (cases "in_int4 i")
        case True
        then have ok: "answers rs 0" "answers rs 1"
          using DeleteItem by (simp_all add: answers_def)
        from same_status(4) [where ok = "answers rs" and i = i and dm = dm and ds = ds, OF shape ok]
          True DeleteItem eq show ?thesis
          by (simp add: answered_differently_def)
      next
        case False
        then have no: "\<not> answers rs 0" using DeleteItem by (simp add: answers_def)
        from absent_status(5) [OF absent [OF False], of dm]
          rejected_status(5) [where ok = "answers rs" and i = i and tb = tb and d = ds, OF no]
            False DeleteItem eq
        show ?thesis by (simp add: answered_differently_def)
      qed
    next
      case (PostSearch i flag)
      show ?thesis
      proof (cases "in_int4 i")
        case True
        then have ok: "answers rs 0" "answers rs 1"
          using PostSearch by (simp_all add: answers_def)
        from same_status(2) [where ok = "answers rs" and i = i and flag = flag, OF shape ok]
          True PostSearch eq show ?thesis
          by (simp add: answered_differently_def)
      next
        case False
        then have no: "\<not> answers rs 0" using PostSearch by (simp add: answers_def)
        from absent_status(2) [OF absent [OF False], of flag]
          rejected_status(2) [where ok = "answers rs" and i = i and flag = flag and tb = tb, OF no]
            False PostSearch eq
        show ?thesis by (simp add: answered_differently_def)
      qed
    next
      case PostSearchNoBody
      with eq show ?thesis
        by (simp add: answered_differently_def mem_post_search_def sql_post_search_def)
    qed
  qed
qed

text \<open>
  A pair of runs: the in-memory variant starts on an empty cache directory and stores
  the photo of "Laptop" as \<^verbatim>\<open>/cache/a\<close>, the SQL-backed variant starts on a directory
  that holds \<^verbatim>\<open>/cache/old\<close> and stores the photo as \<^verbatim>\<open>/cache/b\<close>.
\<close>

lemma both_reachable_example:
  "both_reachable ''/cache''
     ((\<lparr>inventory = [\<lparr>item_id = 1, name = ''Laptop'', description = ''16GB RAM'',
                       photo = Some ''/cache/a''\<rparr>], nextId = 2\<rparr>, {''/cache/a''}),
      (\<lparr>rows = [\<lparr>item_id = 1, name = ''Laptop'', description = ''16GB RAM'',
                  photo = Some ''/cache/b''\<rparr>], seq = 2\<rparr>, {''/cache/b'', ''/cache/old''}))"
proof -
  have "both_reachable ''/cache'' ((mem_init, {}), (db_init, {''/cache/old''}))"
    by (rule both_start)
  then have "both_reachable ''/cache''
      (snd (mem_handle ''/cache'' (PostRegister (Some ''Laptop'') (Some ''16GB RAM'') (Some ''a''))
         (mem_init, {})),
       snd (sql_handle ''/cache''
         (answers (PostRegister (Some ''Laptop'') (Some ''16GB RAM'') (Some ''b'')))
         (PostRegister (Some ''Laptop'') (Some ''16GB RAM'') (Some ''b''))
         (db_init, {''/cache/old''})))"
    by (rule both_step)
      (simp_all add: same_request_def fresh_upload_def upload_path_def db_init_def)
  then show ?thesis by (simp add: js_defs mem_defs sql_defs answers_def Let_def)
qed

theorem same_status_unless_answered_differently_witness:
  "both_reachable ''/cache''
     ((\<lparr>inventory = [\<lparr>item_id = 1, name = ''Laptop'', description = ''16GB RAM'',
                       photo = Some ''/cache/a''\<rparr>], nextId = 2\<rparr>, {''/cache/a''}),
      (\<lparr>rows = [\<lparr>item_id = 1, name = ''Laptop'', description = ''16GB RAM'',
                  photo = Some ''/cache/b''\<rparr>], seq = 2\<rparr>, {''/cache/b'', ''/cache/old''})) \<and>
   same_request (PutPhoto (Num 1) (Some ''c'')) (PutPhoto (Num 1) (Some ''d'')) \<and>
   seq \<lparr>rows = [\<lparr>item_id = 1, name = ''Laptop'', description = ''16GB RAM'',
                 photo = Some ''/cache/b''\<rparr>], seq = 2\<rparr> \<le> 2147483647 \<and>
   \<not> answered_differently (PutPhoto (Num 1) (Some ''d''))
       [\<lparr>item_id = 1, name = ''Laptop'', description = ''16GB RAM'',
         photo = Some ''/cache/a''\<rparr>] \<and>
   status (fst (mem_handle ''/cache'' (PutPhoto (Num 1) (Some ''c''))
     (\<lparr>inventory = [\<lparr>item_id = 1, name = ''Laptop'', description = ''16GB RAM'',
                       photo = Some ''/cache/a''\<rparr>], nextId = 2\<rparr>, {''/cache/a''}))) = 200 \<and>
   status (fst (sql_handle ''/cache'' (answers (PutPhoto (Num 1) (Some ''d'')))
     (PutPhoto (Num 1) (Some ''d''))
     (\<lparr>rows = [\<lparr>item_id = 1, name = ''Laptop'', description = ''16GB RAM'',
                  photo = Some ''/cache/b''\<rparr>], seq = 2\<rparr>, {''/cache/b'', ''/cache/old''}))) = 200 \<and>
   same_request (GetItem NaN) (GetItem NaN) \<and>
   answered_differently (GetItem NaN)
       [\<lparr>item_id = 1, name = ''Laptop'', description = ''16GB RAM'',
         photo = Some ''/cache/a''\<rparr>] \<and>
   status (fst (mem_handle ''/cache'' (GetItem NaN)
     (\<lparr>inventory = [\<lparr>item_id = 1, name = ''Laptop'', description = ''16GB RAM'',
                       photo = Some ''/cache/a''\<rparr>], nextId = 2\<rparr>, {''/cache/a''}))) = 404 \<and>
   status (fst (sql_handle ''/cache'' (answers (GetItem NaN)) (GetItem NaN)
     (\<lparr>rows = [\<lparr>item_id = 1, name = ''Laptop'', description = ''16GB RAM'',
                  photo = Some ''/cache/b''\<rparr>], seq = 2\<rparr>, {''/cache/b'', ''/cache/old''}))) = 500"
proof -
  have r1: "same_request (PutPhoto (Num 1) (Some ''c'')) (PutPhoto (Num 1) (Some ''d''))"
    by (simp add: same_request_def)
  have r2: "same_request (GetItem NaN) (GetItem NaN)"
    by (simp add: same_request_def)
  have le: "seq \<lparr>rows = [\<lparr>item_id = 1, name = ''Laptop'', description = ''16GB RAM'',
                 photo = Some ''/cache/b''\<rparr>], seq = 2\<rparr> \<le> 2147483647"
    by simp
  have a1: "\<not> answered_differently (PutPhoto (Num 1) (Some ''d''))
       [\<lparr>item_id = 1, name = ''Laptop'', description = ''16GB RAM'',
         photo = Some ''/cache/a''\<rparr>]"
    by (simp add: answered_differently_def in_int4_def)
  have a2: "answered_differently (GetItem NaN)
       [\<lparr>item_id = 1, name = ''Laptop'', description = ''16GB RAM'',
         photo = Some ''/cache/a''\<rparr>]"
    by (simp add: answered_differently_def in_int4_def)
  have m1: "status (fst (mem_handle ''/cache'' (PutPhoto (Num 1) (Some ''c''))
     (\<lparr>inventory = [\<lparr>item_id = 1, name = ''Laptop'', description = ''16GB RAM'',
                       photo = Some ''/cache/a''\<rparr>], nextId = 2\<rparr>, {''/cache/a''}))) = 200"
    by (simp add: js_defs mem_defs has_id_def upload_single_def remove_photo_file_eq Let_def)
  have m2: "status (fst (mem_handle ''/cache'' (GetItem NaN)
     (\<lparr>inventory = [\<lparr>item_id = 1, name = ''Laptop'', description = ''16GB RAM'',
                       photo = Some ''/cache/a''\<rparr>], nextId = 2\<rparr>, {''/cache/a''}))) = 404"
    by (simp add: js_defs mem_defs has_id_def)
  show ?thesis
    using both_reachable_example r1 r2 le a1 a2 m1 m2
      same_status_unless_answered_differently [OF both_reachable_example r1 le]
      same_status_unless_answered_differently [OF both_reachable_example r2 le]
    by (simp del: mem_handle.simps sql_handle.simps)
qed

text \<open>
  C2 as stated fails on the request it names: on the initial stores,
  \<^verbatim>\<open>PUT /inventory/7/photo\<close> without a file is answered 404 by the in-memory variant
  and 400 by the SQL-backed one.
\<close>

theorem variants_differ_counterexample:
  "both_reachable ''/cache'' ((mem_init, {}), (db_init, {})) \<and>
   status (fst (mem_handle ''/cache'' (PutPhoto (Num 7) None) (mem_init, {}))) = 404 \<and>
   status (fst (sql_handle ''/cache'' all_ok (PutPhoto (Num 7) None) (db_init, {}))) = 400"
proof -
  have "both_reachable ''/cache'' ((mem_init, {}), (db_init, {}))" by (rule both_start)
  moreover have "status (fst (mem_handle ''/cache'' (PutPhoto (Num 7) None) (mem_init, {}))) = 404"
    by (simp add: js_defs mem_defs)
  moreover have "status (fst (sql_handle ''/cache'' all_ok (PutPhoto (Num 7) None) (db_init, {}))) = 400"
    by (simp add: js_defs sql_defs)
  ultimately show ?thesis by blast
qed
end
